theory Spec2Isabelle
  imports Main "HOL-Library.Word"
begin

section \<open>The WebVTT parser of packager/media/formats/webvtt/webvtt_parser.cc\<close>

text \<open>
  The C++ members carry a trailing underscore (\<open>reader_\<close>, \<open>saw_cue_\<close>, ...); the record
  fields below drop it. A \<open>std::string\<close> is a \<open>string\<close> (a list of bytes), a
  \<open>std::vector<std::string>\<close> a \<open>string list\<close>, \<open>uint64_t\<close> a \<open>64 word\<close>.
\<close>

subsection \<open>String functions of the standard and base libraries\<close>

definition LF :: char where
  "LF = CHR 0x0A"

definition CR :: char where
  "CR = CHR 0x0D"

text \<open>\<open>base::kWhitespaceASCII\<close>: tab, line feed, vertical tab, form feed, carriage return, space.\<close>

definition kWhitespaceASCII :: string where
  "kWhitespaceASCII = [CHR 0x09, CHR 0x0A, CHR 0x0B, CHR 0x0C, CHR 0x0D, CHR 0x20]"

definition IsAsciiWhitespace :: "char \<Rightarrow> bool" where
  "IsAsciiWhitespace c = (c \<in> set kWhitespaceASCII)"

datatype TrimPositions = TRIM_LEADING | TRIM_TRAILING | TRIM_ALL

definition TrimWhitespaceASCII :: "string \<Rightarrow> TrimPositions \<Rightarrow> string" where
  "TrimWhitespaceASCII input positions =
     (let a = (if positions = TRIM_TRAILING then input else dropWhile IsAsciiWhitespace input)
      in if positions = TRIM_LEADING then a else rev (dropWhile IsAsciiWhitespace (rev a)))"

text \<open>\<open>base::StartsWith\<close> with \<open>CompareCase::SENSITIVE\<close>.\<close>

definition StartsWith :: "string \<Rightarrow> string \<Rightarrow> bool" where
  "StartsWith str search_for = (take (length search_for) str = search_for)"

text \<open>\<open>std::string::find\<close>: the first position of the pattern, \<open>None\<close> for \<open>npos\<close>.\<close>

fun find_from :: "nat \<Rightarrow> string \<Rightarrow> string \<Rightarrow> nat option" where
  "find_from i [] pat = (if pat = [] then Some i else None)"
| "find_from i (c # cs) pat =
     (if StartsWith (c # cs) pat then Some i else find_from (Suc i) cs pat)"

definition find :: "string \<Rightarrow> string \<Rightarrow> nat option" where
  "find str pat = find_from 0 str pat"

text \<open>\<open>base::JoinString\<close>.\<close>

fun JoinString :: "string list \<Rightarrow> string \<Rightarrow> string" where
  "JoinString [] sep = []"
| "JoinString [x] sep = x"
| "JoinString (x # y # ys) sep = x @ sep @ JoinString (y # ys) sep"

text \<open>
  \<open>base::SplitString(input, separators, whitespace, result_type)\<close>: the input is cut at
  every character of \<open>separators\<close>; each piece is trimmed when asked; empty pieces are
  dropped when asked. An empty input gives no piece at all.
\<close>

datatype WhitespaceHandling = KEEP_WHITESPACE | TRIM_WHITESPACE

datatype SplitResult = SPLIT_WANT_ALL | SPLIT_WANT_NONEMPTY

fun split_pieces :: "string \<Rightarrow> string \<Rightarrow> string \<Rightarrow> string list" where
  "split_pieces separators cur [] = [rev cur]"
| "split_pieces separators cur (c # cs) =
     (if c \<in> set separators then rev cur # split_pieces separators [] cs
      else split_pieces separators (c # cur) cs)"

definition SplitString ::
  "string \<Rightarrow> string \<Rightarrow> WhitespaceHandling \<Rightarrow> SplitResult \<Rightarrow> string list" where
  "SplitString input separators whitespace result_type =
     (if input = [] then []
      else filter (\<lambda>piece. result_type = SPLIT_WANT_ALL \<or> piece \<noteq> [])
             (map (\<lambda>piece. if whitespace = TRIM_WHITESPACE
                            then TrimWhitespaceASCII piece TRIM_ALL else piece)
                  (split_pieces separators [] input)))"

subsection \<open>Timestamps\<close>

definition is_digit :: "char \<Rightarrow> bool" where
  "is_digit c = (c \<in> set ''0123456789'')"

definition digit_value :: "char \<Rightarrow> nat" where
  "digit_value c = of_char c - 48"

definition digits_value :: "string \<Rightarrow> nat" where
  "digits_value ds = foldl (\<lambda>n c. 10 * n + digit_value c) 0 ds"

definition parse_digits :: "string \<Rightarrow> nat option" where
  "parse_digits ds = (if ds \<noteq> [] \<and> list_all is_digit ds then Some (digits_value ds) else None)"

text \<open>
  Modelled from the spec: \<open>WebVttTimestampToMs\<close> (webvtt_timestamp.cc is not part of the
  sources at hand). Section 4.3 of the specification: the accepted shape is
  \<open>[HH:]MM:SS.mmm\<close>, with \<open>HH\<close> two or more digits, \<open>MM\<close> and \<open>SS\<close> exactly two digits
  in 00..59 and \<open>mmm\<close> exactly three digits; every other shape is rejected; the value is
  \<open>((HH*60+MM)*60+SS)*1000+mmm\<close>, stored in an unsigned 64-bit integer.
\<close>

definition parse_hours :: "string \<Rightarrow> nat option" where
  "parse_hours hp =
     (if hp = [] then Some 0
      else if last hp = CHR '':'' \<and> 2 \<le> length (butlast hp) then parse_digits (butlast hp)
      else None)"

definition WebVttTimestampToMs :: "string \<Rightarrow> 64 word option" where
  "WebVttTimestampToMs source =
     (if length source < 9 then None
      else
        let hp = take (length source - 9) source;
            tl9 = drop (length source - 9) source
        in if tl9 ! 2 \<noteq> CHR '':'' \<or> tl9 ! 5 \<noteq> CHR ''.'' then None
           else
             (case (parse_hours hp, parse_digits (take 2 tl9),
                    parse_digits (take 2 (drop 3 tl9)), parse_digits (drop 6 tl9)) of
                (Some h, Some m, Some s, Some ms) \<Rightarrow>
                  if m \<le> 59 \<and> s \<le> 59 then Some (of_nat (((h * 60 + m) * 60 + s) * 1000 + ms))
                  else None
              | _ \<Rightarrow> None))"

subsection \<open>Samples, stream information and the callbacks\<close>

text \<open>
  Modelled from the spec: \<open>TextSample\<close> (packager/media/base/text_sample.h is not part of
  the sources at hand). The specification describes a cue by its identifier, its start and
  end time, its settings (the appended tokens joined by single spaces) and its payload (the
  appended lines joined by single newlines). The record keeps the appended pieces in the
  order of the calls; the accessors \<open>settings\<close> and \<open>payload\<close> join them.
\<close>

record TextSample =
  sample_id :: string
  start_time :: "64 word"
  end_time :: "64 word"
  styles :: "string list"
  payload_lines :: "string list"

definition TextSample_new :: TextSample where
  "TextSample_new =
     \<lparr>sample_id = [], start_time = 0, end_time = 0, styles = [], payload_lines = []\<rparr>"

definition set_id :: "string \<Rightarrow> TextSample \<Rightarrow> TextSample" where
  "set_id i s = s\<lparr>sample_id := i\<rparr>"

definition SetTime :: "64 word \<Rightarrow> 64 word \<Rightarrow> TextSample \<Rightarrow> TextSample" where
  "SetTime start_time' end_time' s = s\<lparr>start_time := start_time', end_time := end_time'\<rparr>"

definition AppendStyle :: "string \<Rightarrow> TextSample \<Rightarrow> TextSample" where
  "AppendStyle style s = s\<lparr>styles := styles s @ [style]\<rparr>"

definition AppendPayload :: "string \<Rightarrow> TextSample \<Rightarrow> TextSample" where
  "AppendPayload line s = s\<lparr>payload_lines := payload_lines s @ [line]\<rparr>"

definition settings :: "TextSample \<Rightarrow> string" where
  "settings s = JoinString (styles s) '' ''"

definition payload :: "TextSample \<Rightarrow> string" where
  "payload s = JoinString (payload_lines s) [LF]"

text \<open>
  The arguments of the \<open>TextStreamInfo\<close> constructor, in the order of the call in
  \<open>DispatchTextStreamInfo\<close>.
\<close>

datatype Codec = kCodecWebVtt

record TextStreamInfo =
  track_id :: int
  time_scale :: int
  duration :: int
  codec :: Codec
  codec_string :: string
  codec_config :: string
  width :: int
  height :: int
  language :: string

text \<open>
  The two callbacks are the parser's only outputs. Every call is appended to a trace kept
  in the parser state. The sample callback's answer may depend on the sample, the stream
  index and everything the callbacks have received so far.
\<close>

datatype event =
  InitCbRun "TextStreamInfo list"
| NewTextSampleCbRun nat TextSample

datatype InitCB = NullInitCB | BoundInitCB

type_synonym NewTextSampleCB = "(event list \<Rightarrow> nat \<Rightarrow> TextSample \<Rightarrow> bool) option"

definition kStreamIndex :: nat where
  "kStreamIndex = 0"

subsection \<open>The block reader\<close>

text \<open>
  Modelled from the spec: the block reader behind \<open>reader_\<close> (its class is declared and
  defined outside the sources at hand). Section 4.1 of the specification: \<open>pushData\<close>
  appends bytes to a buffer and never fails; \<open>flush\<close> marks the end of the data;
  \<open>nextBlock\<close> removes and returns the group of non-blank lines at the front of the
  buffer when a blank line ends it, and returns nothing, consuming nothing, otherwise;
  after a flush the remaining non-blank lines form one last block even without a blank
  line behind them. Blank lines only separate. A line ends at a line feed; the carriage
  return of a CR LF ending is not part of the line.
\<close>

record BlockReader =
  buffer :: string
  should_flush :: bool

definition BlockReader_new :: BlockReader where
  "BlockReader_new = \<lparr>buffer = [], should_flush = False\<rparr>"

definition PushData :: "string \<Rightarrow> BlockReader \<Rightarrow> BlockReader" where
  "PushData data r = r\<lparr>buffer := buffer r @ data\<rparr>"

definition Flush_reader :: "BlockReader \<Rightarrow> BlockReader" where
  "Flush_reader r = r\<lparr>should_flush := True\<rparr>"

text \<open>The line held in \<open>cur\<close> (its bytes in reverse), without the carriage return of CR LF.\<close>

definition line_of :: "string \<Rightarrow> string" where
  "line_of cur = (case cur of [] \<Rightarrow> [] | c # cs \<Rightarrow> if c = CR then rev cs else rev (c # cs))"

text \<open>
  \<open>scan flushed acc cur input\<close> reads \<open>input\<close> byte by byte: \<open>acc\<close> holds the lines of the
  block read so far (last line first), \<open>cur\<close> the bytes of the line being read (last byte
  first). The result is the block and the bytes behind it.
\<close>

fun scan :: "bool \<Rightarrow> string list \<Rightarrow> string \<Rightarrow> string \<Rightarrow> (string list \<times> string) option" where
  "scan flushed acc cur [] =
     (if flushed
      then (let acc' = (if line_of cur = [] then acc else line_of cur # acc)
            in if acc' = [] then None else Some (rev acc', []))
      else None)"
| "scan flushed acc cur (c # cs) =
     (if c = LF
      then (if line_of cur = []
            then (if acc = [] then scan flushed [] [] cs else Some (rev acc, cs))
            else scan flushed (line_of cur # acc) [] cs)
      else scan flushed acc (c # cur) cs)"

definition Next :: "BlockReader \<Rightarrow> (string list \<times> BlockReader) option" where
  "Next r =
     (case scan (should_flush r) [] [] (buffer r) of
        None \<Rightarrow> None
      | Some (block, rest) \<Rightarrow> Some (block, r\<lparr>buffer := rest\<rparr>))"

subsection \<open>The parser state\<close>

datatype error = OutOfRange | NullCallback | CheckFailed string

text \<open>
  The members of \<open>WebVttParser\<close>, and the trace of the callback runs. The result of a
  member function that returns \<open>bool\<close> is \<open>Inr (result, state)\<close>; \<open>Inl\<close> stands for the
  runs C++ leaves undefined or aborts: a read behind the end of a vector, the run of a null
  callback, a failed \<open>DCHECK\<close>.
\<close>

record WebVttParser =
  reader :: BlockReader
  initialized :: bool
  saw_cue :: bool
  stream_info_dispatched :: bool
  style_region_config :: string
  init_cb :: InitCB
  new_text_sample_cb :: NewTextSampleCB
  events :: "event list"

type_synonym result = "error + (bool \<times> WebVttParser)"

text \<open>
  Modelled from the spec: the values of the members after construction (the constructor
  body is empty and the class declaration with the member initialisers is not part of the
  sources at hand). Section 3 of the specification: the parser starts awaiting the header,
  with no cue seen, no stream information dispatched and an empty configuration.
\<close>

definition WebVttParser_new :: WebVttParser where
  "WebVttParser_new =
     \<lparr>reader = BlockReader_new, initialized = False, saw_cue = False,
      stream_info_dispatched = False, style_region_config = [],
      init_cb = NullInitCB, new_text_sample_cb = None, events = []\<rparr>"

subsection \<open>The helpers of the anonymous namespace\<close>

definition IsLikelyNote :: "string \<Rightarrow> bool" where
  "IsLikelyNote line =
     (line = ''NOTE'' \<or> StartsWith line ''NOTE '' \<or> StartsWith line (''NOTE'' @ [CHR 0x09]))"

definition IsLikelyCueTiming :: "string \<Rightarrow> bool" where
  "IsLikelyCueTiming line = (find line ''-->'' \<noteq> None)"

definition MaybeCueId :: "string \<Rightarrow> bool" where
  "MaybeCueId line = (find line ''-->'' = None)"

definition IsLikelyStyle :: "string \<Rightarrow> bool" where
  "IsLikelyStyle line = (TrimWhitespaceASCII line TRIM_TRAILING = ''STYLE'')"

definition IsLikelyRegion :: "string \<Rightarrow> bool" where
  "IsLikelyRegion line = (TrimWhitespaceASCII line TRIM_TRAILING = ''REGION'')"

definition UpdateConfig :: "string list \<Rightarrow> string \<Rightarrow> string" where
  "UpdateConfig block config =
     (if config \<noteq> [] then config @ [LF, LF] else config) @ JoinString block [LF]"

subsection \<open>Init\<close>

text \<open>
  \<open>DCHECK\<close> is a macro of base/logging.h: with \<open>dcheck_is_on\<close> (debug builds) a false
  condition aborts with the message, without it the condition is not checked at all.
  \<open>Init\<close> returns \<open>void\<close>.
\<close>

definition DCHECK :: "bool \<Rightarrow> bool \<Rightarrow> string \<Rightarrow> error option" where
  "DCHECK dcheck_is_on condition message =
     (if dcheck_is_on \<and> \<not> condition then Some (CheckFailed message) else None)"

definition Init ::
  "bool \<Rightarrow> InitCB \<Rightarrow> 'm option \<Rightarrow> NewTextSampleCB \<Rightarrow> 'k option \<Rightarrow> WebVttParser
     \<Rightarrow> error + WebVttParser" where
  "Init dcheck_is_on init_cb' new_media_sample_cb' new_text_sample_cb' decryption_key_source p =
     (case DCHECK dcheck_is_on (init_cb p = NullInitCB) [] of Some e \<Rightarrow> Inl e
      | None \<Rightarrow>
     (case DCHECK dcheck_is_on (init_cb' \<noteq> NullInitCB) [] of Some e \<Rightarrow> Inl e
      | None \<Rightarrow>
     (case DCHECK dcheck_is_on (new_text_sample_cb' \<noteq> None) [] of Some e \<Rightarrow> Inl e
      | None \<Rightarrow>
     (case DCHECK dcheck_is_on (decryption_key_source = None)
             ''Encrypted WebVTT not supported'' of Some e \<Rightarrow> Inl e
      | None \<Rightarrow>
        Inr (p\<lparr>init_cb := init_cb', new_text_sample_cb := new_text_sample_cb'\<rparr>)))))"

subsection \<open>ParseCue and DispatchTextStreamInfo\<close>

definition DispatchTextStreamInfo :: "WebVttParser \<Rightarrow> error + WebVttParser" where
  "DispatchTextStreamInfo p =
     (let p1 = p\<lparr>stream_info_dispatched := True\<rparr>;
          streams = [\<lparr>track_id = 0, time_scale = 1000, duration = 0, codec = kCodecWebVtt,
                      codec_string = ''wvtt'', codec_config = style_region_config p1,
                      width = 0, height = 0, language = []\<rparr>]
      in case init_cb p1 of
           NullInitCB \<Rightarrow> Inl NullCallback
         | BoundInitCB \<Rightarrow> Inr (p1\<lparr>events := events p1 @ [InitCbRun streams]\<rparr>))"

text \<open>\<open>parsed_time\<close> of \<open>ParseCue\<close>, with the two times it stores.\<close>

definition parsed_time :: "string list \<Rightarrow> (64 word \<times> 64 word) option" where
  "parsed_time time_and_style =
     (if 3 \<le> length time_and_style \<and> time_and_style ! 1 = ''-->''
      then (case WebVttTimestampToMs (time_and_style ! 0) of
              None \<Rightarrow> None
            | Some start_time' \<Rightarrow>
                (case WebVttTimestampToMs (time_and_style ! 2) of
                   None \<Rightarrow> None
                 | Some end_time' \<Rightarrow> Some (start_time', end_time')))
      else None)"

text \<open>The two \<open>for\<close> loops of \<open>ParseCue\<close>, from index \<open>i\<close> to the end.\<close>

function append_styles :: "string list \<Rightarrow> nat \<Rightarrow> TextSample \<Rightarrow> TextSample" where
  "append_styles time_and_style i sample =
     (if i < length time_and_style
      then append_styles time_and_style (Suc i) (AppendStyle (time_and_style ! i) sample)
      else sample)"
  by pat_completeness auto
termination
  by (relation "measure (\<lambda>(time_and_style, i, sample). length time_and_style - i)") auto

declare append_styles.simps [simp del]

function append_payload :: "string list \<Rightarrow> nat \<Rightarrow> TextSample \<Rightarrow> TextSample" where
  "append_payload block i sample =
     (if i < length block
      then append_payload block (Suc i) (AppendPayload (block ! i) sample)
      else sample)"
  by pat_completeness auto
termination
  by (relation "measure (\<lambda>(block, i, sample). length block - i)") auto

declare append_payload.simps [simp del]

text \<open>
  \<open>ParseCue id block\<close>: \<open>block\<close> is the array behind the pointer, \<open>block_size\<close> its
  length.
\<close>

definition ParseCue :: "string \<Rightarrow> string list \<Rightarrow> WebVttParser \<Rightarrow> result" where
  "ParseCue id' block p =
     (case block of
        [] \<Rightarrow> Inl OutOfRange
      | line0 # _ \<Rightarrow>
          (let time_and_style = SplitString line0 '' '' TRIM_WHITESPACE SPLIT_WANT_NONEMPTY
           in (case parsed_time time_and_style of
                 None \<Rightarrow> Inr (False, p)
               | Some (start_time', end_time') \<Rightarrow>
                   (case (if \<not> stream_info_dispatched p then DispatchTextStreamInfo p
                          else Inr p) of
                      Inl e \<Rightarrow> Inl e
                    | Inr p1 \<Rightarrow>
                        if end_time' \<le> start_time' then Inr (True, p1)
                        else
                          (let sample = set_id id' TextSample_new;
                               sample = SetTime start_time' end_time' sample;
                               sample = append_styles time_and_style 3 sample;
                               sample = append_payload block 1 sample
                           in (case new_text_sample_cb p1 of
                                 None \<Rightarrow> Inl NullCallback
                               | Some run \<Rightarrow>
                                   Inr (run (events p1) kStreamIndex sample,
                                        events_update
                                          (\<lambda>trace. trace @ [NewTextSampleCbRun kStreamIndex sample])
                                          p1)))))))"

definition ParseCueWithNoId :: "string list \<Rightarrow> WebVttParser \<Rightarrow> result" where
  "ParseCueWithNoId block p = ParseCue [] block p"

definition ParseCueWithId :: "string list \<Rightarrow> WebVttParser \<Rightarrow> result" where
  "ParseCueWithId block p =
     (case block of [] \<Rightarrow> Inl OutOfRange | id' # rest \<Rightarrow> ParseCue id' rest p)"

subsection \<open>ParseBlock\<close>

definition ParseBlock :: "string list \<Rightarrow> WebVttParser \<Rightarrow> result" where
  "ParseBlock block p =
     (case block of
        [] \<Rightarrow> Inl OutOfRange
      | line0 # _ \<Rightarrow>
          if IsLikelyNote line0 then Inr (True, p)
          else if IsLikelyStyle line0 then
            Inr (True, if saw_cue p then p
                       else p\<lparr>style_region_config := UpdateConfig block (style_region_config p)\<rparr>)
          else if IsLikelyRegion line0 then
            Inr (True, if saw_cue p then p
                       else p\<lparr>style_region_config := UpdateConfig block (style_region_config p)\<rparr>)
          else
            (case (if 2 \<le> length block \<and> MaybeCueId line0 \<and> IsLikelyCueTiming (block ! 1)
                   then ParseCueWithId block p else Inr (False, p)) of
               Inl e \<Rightarrow> Inl e
             | Inr (with_id, p1) \<Rightarrow>
                 if with_id then Inr (True, p1\<lparr>saw_cue := True\<rparr>)
                 else
                   (case (if IsLikelyCueTiming line0 then ParseCueWithNoId block p1
                          else Inr (False, p1)) of
                      Inl e \<Rightarrow> Inl e
                    | Inr (no_id, p2) \<Rightarrow>
                        if no_id then Inr (True, p2\<lparr>saw_cue := True\<rparr>)
                        else Inr (False, p2))))"

subsection \<open>Parse and Flush\<close>

text \<open>
  A block taken by \<open>Next\<close> leaves fewer bytes in the buffer, and \<open>ParseBlock\<close> does not
  touch the reader: the loop of \<open>Parse\<close> ends.
\<close>

lemma scan_length:
  "scan flushed acc cur input = Some (block, rest) \<Longrightarrow> length rest \<le> length input"
proof (induction input arbitrary: acc cur)
  case Nil
  then show ?case
    by (simp add: Let_def split: if_splits)
next
  case (Cons c cs)
  have "\<exists>acc' cur'. scan flushed acc' cur' cs = Some (block, rest) \<or> rest = cs"
    using Cons.prems by (auto split: if_splits)
  then show ?case
    using Cons.IH by (auto simp: le_SucI)
qed

lemma scan_shorter:
  assumes "scan flushed [] [] input = Some (block, rest)"
  shows "length rest < length input"
proof (cases input)
  case Nil
  with assms show ?thesis
    by (simp add: line_of_def Let_def split: if_splits)
next
  case (Cons c cs)
  with assms have "\<exists>acc' cur'. scan flushed acc' cur' cs = Some (block, rest)"
    by (auto simp: line_of_def split: if_splits)
  then show ?thesis
    using Cons by (auto dest: scan_length simp: less_Suc_eq_le)
qed

lemma Next_shorter:
  "Next r = Some (block, r') \<Longrightarrow> length (buffer r') < length (buffer r)"
  by (auto simp: Next_def split: option.splits dest: scan_shorter)

lemma DispatchTextStreamInfo_reader:
  "DispatchTextStreamInfo p = Inr p' \<Longrightarrow> reader p' = reader p"
  by (auto simp: DispatchTextStreamInfo_def Let_def split: InitCB.splits)

lemma ParseCue_reader:
  "ParseCue id' block p = Inr (ok, p') \<Longrightarrow> reader p' = reader p"
  unfolding ParseCue_def Let_def
  by (auto split: list.splits option.splits sum.splits if_splits prod.splits
      dest: DispatchTextStreamInfo_reader)

lemma ParseBlock_reader:
  "ParseBlock block p = Inr (ok, p') \<Longrightarrow> reader p' = reader p"
  by (auto simp: ParseBlock_def ParseCueWithId_def ParseCueWithNoId_def
      split: list.splits sum.splits if_splits prod.splits
      dest!: ParseCue_reader)

text \<open>The \<open>while\<close> loop of \<open>Parse\<close>.\<close>

function ParseLoop :: "WebVttParser \<Rightarrow> result" where
  "ParseLoop p =
     (case Next (reader p) of
        None \<Rightarrow> Inr (True, p)
      | Some (block, r) \<Rightarrow>
          (case ParseBlock block (p\<lparr>reader := r\<rparr>) of
             Inl e \<Rightarrow> Inl e
           | Inr (ok, p') \<Rightarrow> if \<not> ok then Inr (False, p') else ParseLoop p'))"
  by pat_completeness auto
termination
proof (relation "measure (\<lambda>p. length (buffer (reader p)))")
  show "wf (measure (\<lambda>p. length (buffer (reader p))))"
    by simp
next
  fix p :: WebVttParser and x2 block r x2a x2b ok p'
  assume nxt: "Next (reader p) = Some x2" and x2: "(block, r) = x2"
    and pb: "ParseBlock block (p\<lparr>reader := r\<rparr>) = Inr x2a"
    and x2a: "(ok, p') = x2a"
  from pb x2a have "reader p' = r"
    by (auto dest: ParseBlock_reader)
  moreover from nxt x2 have "length (buffer r) < length (buffer (reader p))"
    by (auto dest: Next_shorter)
  ultimately show "(p', p) \<in> measure (\<lambda>p. length (buffer (reader p)))"
    by simp
qed

declare ParseLoop.simps [simp del]

text \<open>\<open>Parse()\<close>, without arguments.\<close>

definition Parse :: "WebVttParser \<Rightarrow> result" where
  "Parse p =
     (if \<not> initialized p then
        (case Next (reader p) of
           None \<Rightarrow> Inr (True, p)
         | Some (block, r) \<Rightarrow>
             (let p1 = p\<lparr>reader := r\<rparr>
              in if length block \<noteq> 1 then Inr (False, p1)
                 else if block ! 0 \<noteq> ''WEBVTT'' \<and>
                         block ! 0 \<noteq> [CHR 0xEF, CHR 0xBB, CHR 0xBF] @ ''WEBVTT''
                 then Inr (False, p1)
                 else ParseLoop (p1\<lparr>initialized := True\<rparr>)))
      else ParseLoop p)"

text \<open>\<open>Parse(buf, size)\<close>: the bytes of \<open>buf\<close> are pushed, then \<open>Parse()\<close> runs.\<close>

definition Parse_buf :: "string \<Rightarrow> WebVttParser \<Rightarrow> result" where
  "Parse_buf buf p = Parse (p\<lparr>reader := PushData buf (reader p)\<rparr>)"

definition Flush :: "WebVttParser \<Rightarrow> result" where
  "Flush p = Parse (p\<lparr>reader := Flush_reader (reader p)\<rparr>)"

section \<open>Vocabulary of the statements\<close>

text \<open>
  The tokens of a timing line, as \<open>ParseCue\<close> computes them, and the stream information
  \<open>DispatchTextStreamInfo\<close> hands to the init callback for a given configuration.
\<close>

definition time_and_style_of :: "string \<Rightarrow> string list" where
  "time_and_style_of line = SplitString line '' '' TRIM_WHITESPACE SPLIT_WANT_NONEMPTY"

definition stream_info_of :: "string \<Rightarrow> TextStreamInfo" where
  "stream_info_of config =
     \<lparr>track_id = 0, time_scale = 1000, duration = 0, codec = kCodecWebVtt,
      codec_string = ''wvtt'', codec_config = config, width = 0, height = 0, language = []\<rparr>"

text \<open>
  \<open>announced p\<close> is the state once the stream information has been dispatched, if it had
  not been before. \<open>cue_sample\<close> is a sample given by its parts. \<open>config_added\<close> is the
  state after a STYLE or REGION block, \<open>marked\<close> sets \<open>saw_cue\<close> after a cue that parsed.
\<close>

definition announced :: "WebVttParser \<Rightarrow> WebVttParser" where
  "announced p =
     (if stream_info_dispatched p then p
      else p\<lparr>stream_info_dispatched := True,
             events := events p @ [InitCbRun [stream_info_of (style_region_config p)]]\<rparr>)"

definition cue_sample ::
  "string \<Rightarrow> 64 word \<Rightarrow> 64 word \<Rightarrow> string list \<Rightarrow> string list \<Rightarrow> TextSample" where
  "cue_sample id' start_time' end_time' tokens body =
     \<lparr>sample_id = id', start_time = start_time', end_time = end_time',
      styles = tokens, payload_lines = body\<rparr>"

definition config_added :: "string list \<Rightarrow> WebVttParser \<Rightarrow> WebVttParser" where
  "config_added block p =
     (if saw_cue p then p
      else p\<lparr>style_region_config :=
               (if style_region_config p = [] then [] else style_region_config p @ [LF, LF]) @
               JoinString block [LF]\<rparr>)"

definition marked :: "bool \<times> WebVttParser \<Rightarrow> bool \<times> WebVttParser" where
  "marked res = (if fst res then (True, (snd res)\<lparr>saw_cue := True\<rparr>) else res)"

text \<open>
  The classification of section 4.2 of the specification, in its order: comment, style,
  region, cue with identifier, cue without identifier, and unclassifiable when no rule
  matches. A cue is valid when \<open>ParseCue\<close> returns true on it.
\<close>

datatype block_class = Comment | Style | Region | CueWithId | CueWithoutId | Unclassifiable

definition valid_cue :: "string \<Rightarrow> string list \<Rightarrow> WebVttParser \<Rightarrow> bool" where
  "valid_cue id' content p = (case ParseCue id' content p of Inl e \<Rightarrow> False | Inr (ok, p1) \<Rightarrow> ok)"

definition classify :: "string list \<Rightarrow> WebVttParser \<Rightarrow> block_class" where
  "classify block p =
     (if IsLikelyNote (block ! 0) then Comment
      else if IsLikelyStyle (block ! 0) then Style
      else if IsLikelyRegion (block ! 0) then Region
      else if 2 \<le> length block \<and> \<not> IsLikelyCueTiming (block ! 0) \<and>
              IsLikelyCueTiming (block ! 1) \<and> valid_cue (block ! 0) (tl block) p then CueWithId
      else if IsLikelyCueTiming (block ! 0) \<and> valid_cue [] block p then CueWithoutId
      else Unclassifiable)"

text \<open>
  A candidate cue is a block that is neither comment nor style nor region; its parts are
  the identifier, the timing line and the lines behind it, by the shape of its first two
  lines. A timing line is in order when it has at least three tokens, the second one the
  arrow, the first and the third one timestamps.
\<close>

definition cue_candidate :: "string list \<Rightarrow> bool" where
  "cue_candidate block =
     (block \<noteq> [] \<and> \<not> IsLikelyNote (block ! 0) \<and> \<not> IsLikelyStyle (block ! 0) \<and>
      \<not> IsLikelyRegion (block ! 0))"

definition cue_parts :: "string list \<Rightarrow> (string \<times> string \<times> string list) option" where
  "cue_parts block =
     (if 2 \<le> length block \<and> \<not> IsLikelyCueTiming (block ! 0) \<and> IsLikelyCueTiming (block ! 1)
      then Some (block ! 0, block ! 1, drop 2 block)
      else if block \<noteq> [] \<and> IsLikelyCueTiming (block ! 0)
      then Some ([], block ! 0, drop 1 block)
      else None)"

definition tokens_in_order :: "string list \<Rightarrow> bool" where
  "tokens_in_order tokens =
     (3 \<le> length tokens \<and> tokens ! 1 = ''-->'' \<and>
      WebVttTimestampToMs (tokens ! 0) \<noteq> None \<and> WebVttTimestampToMs (tokens ! 2) \<noteq> None)"

definition timing_ok :: "string \<Rightarrow> bool" where
  "timing_ok line = tokens_in_order (time_and_style_of line)"

text \<open>
  The tokens of a line in the words of the specification: the non-empty runs of bytes
  between whitespace. A token is plain when it holds no whitespace, and the bytes a
  timestamp is made of are digits, colons and full stops.
\<close>

fun whitespace_split :: "string \<Rightarrow> string \<Rightarrow> string list" where
  "whitespace_split cur [] = (if cur = [] then [] else [rev cur])"
| "whitespace_split cur (c # cs) =
     (if IsAsciiWhitespace c
      then (if cur = [] then whitespace_split [] cs else rev cur # whitespace_split [] cs)
      else whitespace_split (c # cur) cs)"

definition whitespace_tokens :: "string \<Rightarrow> string list" where
  "whitespace_tokens line = whitespace_split [] line"

definition no_whitespace :: "string \<Rightarrow> bool" where
  "no_whitespace t = (\<not> list_ex IsAsciiWhitespace t)"

definition timestamp_char :: "char \<Rightarrow> bool" where
  "timestamp_char c = (is_digit c \<or> c = CHR '':'' \<or> c = CHR ''.'')"

text \<open>
  The samples and the stream information found in a trace. The dispatch flag is consistent
  with the trace when the trace holds one dispatch if the flag is set and none otherwise.
\<close>

fun sample_of :: "event \<Rightarrow> TextSample list" where
  "sample_of (InitCbRun streams) = []"
| "sample_of (NewTextSampleCbRun stream_index sample) = [sample]"

definition samples_of :: "event list \<Rightarrow> TextSample list" where
  "samples_of trace = concat (map sample_of trace)"

fun streams_of :: "event \<Rightarrow> TextStreamInfo list list" where
  "streams_of (InitCbRun streams) = [streams]"
| "streams_of (NewTextSampleCbRun stream_index sample) = []"

definition dispatches :: "event list \<Rightarrow> TextStreamInfo list list" where
  "dispatches trace = concat (map streams_of trace)"

definition dispatch_consistent :: "WebVttParser \<Rightarrow> bool" where
  "dispatch_consistent p =
     (length (dispatches (events p)) = (if stream_info_dispatched p then 1 else 0))"

text \<open>
  The header block of section 4.2: one line, the header token, with or without the
  three bytes of the UTF-8 byte order mark in front.
\<close>

definition BOM :: string where
  "BOM = [CHR 0xEF, CHR 0xBB, CHR 0xBF]"

definition is_header_block :: "string list \<Rightarrow> bool" where
  "is_header_block block = (block = [''WEBVTT''] \<or> block = [BOM @ ''WEBVTT''])"

text \<open>
  What a call returned, and the state it left.
\<close>

definition succeeded :: "result \<Rightarrow> bool" where
  "succeeded res = (case res of Inl e \<Rightarrow> False | Inr (ok, p) \<Rightarrow> ok)"

definition returned_false :: "result \<Rightarrow> bool" where
  "returned_false res = (case res of Inl e \<Rightarrow> False | Inr (ok, p) \<Rightarrow> \<not> ok)"

definition state_after :: "result \<Rightarrow> WebVttParser" where
  "state_after res = (case res of Inl e \<Rightarrow> WebVttParser_new | Inr (ok, p) \<Rightarrow> p)"

text \<open>
  The reader with more bytes behind its buffer and a given flush flag, and a result with
  the reader replaced.
\<close>

definition with_more :: "string \<Rightarrow> bool \<Rightarrow> WebVttParser \<Rightarrow> WebVttParser" where
  "with_more bytes flushed p =
     p\<lparr>reader := \<lparr>buffer = buffer (reader p) @ bytes, should_flush = flushed\<rparr>\<rparr>"

definition with_reader :: "BlockReader \<Rightarrow> result \<Rightarrow> result" where
  "with_reader r res = (case res of Inl e \<Rightarrow> Inl e | Inr (ok, p) \<Rightarrow> Inr (ok, p\<lparr>reader := r\<rparr>))"

text \<open>
  The calls of a caller that is given a document in chunks, as in the unit tests and in
  section 5 of the specification: \<open>Parse\<close> on every chunk in order, no further call after a
  call that failed, and \<open>Flush\<close> at the end. The outcome of the calls is the result of the
  last one and the trace of the callback runs.
\<close>

fun feed :: "string list \<Rightarrow> WebVttParser \<Rightarrow> result" where
  "feed [] p = Flush p"
| "feed (chunk # chunks) p =
     (case Parse_buf chunk p of
        Inl e \<Rightarrow> Inl e
      | Inr (ok, p') \<Rightarrow> if ok then feed chunks p' else Inr (False, p'))"

definition outcome :: "result \<Rightarrow> error + bool \<times> event list" where
  "outcome res = (case res of Inl e \<Rightarrow> Inl e | Inr (ok, p) \<Rightarrow> Inr (ok, events p))"

text \<open>
  The loop of \<open>Parse\<close> over a given list of blocks, and the blocks that begin with a
  style or region line. \<open>joined_blocks config blocks\<close> is the configuration followed by the
  blocks, each block with its lines joined by single newlines, separated by blank lines.
  \<open>kept p p'\<close> holds what a later state \<open>p'\<close> keeps of \<open>p\<close>: a dispatch flag that stays
  consistent with the trace, the dispatches once the stream information is out, and the
  configuration once a cue has been seen.
\<close>

fun run_blocks :: "string list list \<Rightarrow> WebVttParser \<Rightarrow> result" where
  "run_blocks [] p = Inr (True, p)"
| "run_blocks (block # blocks) p =
     (case ParseBlock block p of
        Inl e \<Rightarrow> Inl e
      | Inr (ok, p') \<Rightarrow> if \<not> ok then Inr (False, p') else run_blocks blocks p')"

text \<open>
  \<open>reads r blocks r'\<close>: the reader \<open>r\<close> yields the blocks, one call of \<open>Next\<close> after the
  other, and \<open>r'\<close> is the reader behind the last of them.
\<close>

fun reads :: "BlockReader \<Rightarrow> string list list \<Rightarrow> BlockReader \<Rightarrow> bool" where
  "reads r [] r' = (r' = r)"
| "reads r (block # blocks) r' =
     (case Next r of None \<Rightarrow> False | Some (b, r1) \<Rightarrow> b = block \<and> reads r1 blocks r')"

definition style_or_region :: "string list \<Rightarrow> bool" where
  "style_or_region block =
     (block \<noteq> [] \<and> (IsLikelyStyle (block ! 0) \<or> IsLikelyRegion (block ! 0)))"

definition joined_blocks :: "string \<Rightarrow> string list list \<Rightarrow> string" where
  "joined_blocks config blocks =
     JoinString ((if config = [] then [] else [config]) @ map (\<lambda>block. JoinString block [LF]) blocks)
       [LF, LF]"

definition kept :: "WebVttParser \<Rightarrow> WebVttParser \<Rightarrow> bool" where
  "kept p p' =
     ((dispatch_consistent p \<longrightarrow> dispatch_consistent p') \<and>
      (stream_info_dispatched p \<longrightarrow>
         stream_info_dispatched p' \<and> dispatches (events p') = dispatches (events p)) \<and>
      (saw_cue p \<longrightarrow> saw_cue p' \<and> style_region_config p' = style_region_config p))"

text \<open>
  Concrete parsers and inputs: sample callbacks that accept or reject everything, the
  parser after \<open>Init\<close> with bound callbacks (\<open>ready\<close>), the same parser with bytes in
  its buffer before (\<open>awaiting\<close>) and after the header (\<open>streaming\<close>), and documents.
\<close>

definition accept_all :: "event list \<Rightarrow> nat \<Rightarrow> TextSample \<Rightarrow> bool" where
  "accept_all trace stream_index sample = True"

definition reject_all :: "event list \<Rightarrow> nat \<Rightarrow> TextSample \<Rightarrow> bool" where
  "reject_all trace stream_index sample = False"

definition ready :: WebVttParser where
  "ready = WebVttParser_new\<lparr>init_cb := BoundInitCB, new_text_sample_cb := Some accept_all\<rparr>"

definition awaiting :: "string \<Rightarrow> WebVttParser" where
  "awaiting bytes = ready\<lparr>reader := \<lparr>buffer = bytes, should_flush = False\<rparr>\<rparr>"

definition streaming :: "string \<Rightarrow> (event list \<Rightarrow> nat \<Rightarrow> TextSample \<Rightarrow> bool) \<Rightarrow> WebVttParser" where
  "streaming bytes run =
     WebVttParser_new\<lparr>reader := \<lparr>buffer = bytes, should_flush = False\<rparr>, initialized := True,
        init_cb := BoundInitCB, new_text_sample_cb := Some run\<rparr>"

definition cue_block :: "string list" where
  "cue_block = [''id'', ''00:01:00.000 --> 01:00:00.000 size:50% line:0'', ''subtitle'', ''more'']"

definition cue_bytes :: string where
  "cue_bytes = ''id'' @ [LF] @ ''00:01:00.000 --> 01:00:00.000 size:50% line:0'' @ [CR, LF] @
     ''subtitle'' @ [LF] @ ''more'' @ [LF, LF]"

definition doc_bad :: string where
  "doc_bad = ''WEBVTT'' @ [LF, LF] @ ''bad'' @ [LF, LF] @
     ''00:01:00.000 --> 01:00:00.000'' @ [LF] @ ''subtitle'' @ [LF]"

definition after_bad :: WebVttParser where
  "after_bad = ready\<lparr>reader := \<lparr>buffer = ''00:01:00.000 --> 01:00:00.000'' @ [LF] @ ''subtitle'' @ [LF],
      should_flush = False\<rparr>, initialized := True\<rparr>"

definition doc_one_cue :: string where
  "doc_one_cue = ''WEBVTT'' @ [LF, LF] @ ''00:01:00.000 --> 01:00:00.000'' @ [LF] @
     ''subtitle'' @ [LF, LF]"

definition doc_flushed :: string where
  "doc_flushed = ''WEBVTT'' @ [LF, LF] @ ''00:01:00.000 --> 01:00:00.000'' @ [LF] @ ''subtitle'' @ [LF]"

definition doc_chunks :: "string list" where
  "doc_chunks = [''WEBV'', ''TT'' @ [LF, LF] @ ''00:01:00.000 -->'',
     '' 01:00:00.000'' @ [LF] @ ''subti'', ''tle'' @ [LF]]"

definition style_block :: "string list" where
  "style_block = [''STYLE'', ''::cue { color:lime }'']"

definition region_block :: "string list" where
  "region_block = [''REGION'', ''id:scroll'', ''scrol:up'']"

definition blob :: string where
  "blob = ''STYLE'' @ [LF] @ ''::cue { color:lime }'' @ [LF, LF] @
     ''REGION'' @ [LF] @ ''id:scroll'' @ [LF] @ ''scrol:up''"

definition doc_styles :: string where
  "doc_styles = ''WEBVTT'' @ [LF, LF] @ ''STYLE'' @ [LF] @ ''::cue { color:lime }'' @ [LF, LF] @
     ''REGION'' @ [LF] @ ''id:scroll'' @ [LF] @ ''scrol:up'' @ [LF, LF] @
     ''00:01:00.000 --> 01:00:00.000'' @ [LF] @ ''subtitle'' @ [LF, LF] @
     ''STYLE'' @ [LF] @ ''::cue { color:red }'' @ [LF, LF]"

definition after_styles :: WebVttParser where
  "after_styles = ready\<lparr>reader := \<lparr>buffer = [], should_flush = False\<rparr>, initialized := True,
      saw_cue := True, stream_info_dispatched := True, style_region_config := blob,
      events := [InitCbRun [stream_info_of blob],
                 NewTextSampleCbRun 0 (cue_sample [] 60000 3600000 [] [''subtitle''])]\<rparr>"

section \<open>Lemmas about the functions\<close>

text \<open>
  The two loops of \<open>ParseCue\<close> append the tokens from index 3 and the lines from index 1.
\<close>

lemma append_styles_drop:
  "append_styles tas i sample = sample\<lparr>styles := styles sample @ drop i tas\<rparr>"
proof (induction tas i sample rule: append_styles.induct)
  case (1 tas i sample)
  show ?case
  proof (cases "i < length tas")
    case True
    with 1 show ?thesis
      by (subst append_styles.simps) (simp add: AppendStyle_def Cons_nth_drop_Suc)
  next
    case False
    then show ?thesis
      by (subst append_styles.simps) simp
  qed
qed

lemma append_payload_drop:
  "append_payload block i sample = sample\<lparr>payload_lines := payload_lines sample @ drop i block\<rparr>"
proof (induction block i sample rule: append_payload.induct)
  case (1 block i sample)
  show ?case
  proof (cases "i < length block")
    case True
    with 1 show ?thesis
      by (subst append_payload.simps) (simp add: AppendPayload_def Cons_nth_drop_Suc)
  next
    case False
    then show ?thesis
      by (subst append_payload.simps) simp
  qed
qed

lemma dispatch_announced:
  "init_cb p = BoundInitCB \<Longrightarrow>
   (if \<not> stream_info_dispatched p then DispatchTextStreamInfo p else Inr p) = Inr (announced p)"
  by (simp add: DispatchTextStreamInfo_def announced_def stream_info_of_def Let_def)

lemma ParseCue_no_time:
  "parsed_time (time_and_style_of line0) = None \<Longrightarrow> ParseCue id' (line0 # body) p = Inr (False, p)"
  by (simp add: ParseCue_def time_and_style_of_def)

lemma ParseCue_dropped:
  assumes "parsed_time (time_and_style_of line0) = Some (st, en)" and "en \<le> st"
    and "init_cb p = BoundInitCB"
  shows "ParseCue id' (line0 # body) p = Inr (True, announced p)"
  using assms(1,2) dispatch_announced [OF assms(3)]
  by (simp add: ParseCue_def time_and_style_of_def)

lemma ParseCue_sample:
  assumes "parsed_time (time_and_style_of line0) = Some (st, en)" and "st < en"
    and "init_cb p = BoundInitCB" and "new_text_sample_cb p = Some run"
  shows "ParseCue id' (line0 # body) p =
     Inr (run (events (announced p)) kStreamIndex
            (cue_sample id' st en (drop 3 (time_and_style_of line0)) body),
          (announced p)\<lparr>events := events (announced p) @
             [NewTextSampleCbRun kStreamIndex
                (cue_sample id' st en (drop 3 (time_and_style_of line0)) body)]\<rparr>)"
proof -
  have cb: "new_text_sample_cb (announced p) = Some run"
    using assms(4) by (simp add: announced_def)
  have sample: "append_payload (line0 # body) 1
      (append_styles (time_and_style_of line0) 3 (SetTime st en (set_id id' TextSample_new))) =
      cue_sample id' st en (drop 3 (time_and_style_of line0)) body"
    by (simp add: append_payload_drop append_styles_drop SetTime_def set_id_def
        TextSample_new_def cue_sample_def)
  from assms(2) have "\<not> en \<le> st"
    by simp
  with assms(1) dispatch_announced [OF assms(3)] cb sample show ?thesis
    by (simp add: ParseCue_def Let_def time_and_style_of_def [symmetric])
qed

lemma MaybeCueId_iff: "MaybeCueId line = (\<not> IsLikelyCueTiming line)"
  by (simp add: MaybeCueId_def IsLikelyCueTiming_def)

text \<open>
  \<open>ParseBlock\<close>, branch by branch.
\<close>

lemma ParseBlock_note:
  "IsLikelyNote line0 \<Longrightarrow> ParseBlock (line0 # rest) p = Inr (True, p)"
  by (simp add: ParseBlock_def)

lemma ParseBlock_style_region:
  "\<not> IsLikelyNote line0 \<Longrightarrow> IsLikelyStyle line0 \<or> IsLikelyRegion line0 \<Longrightarrow>
   ParseBlock (line0 # rest) p = Inr (True, config_added (line0 # rest) p)"
  by (auto simp: ParseBlock_def config_added_def UpdateConfig_def)

lemma ParseBlock_with_id:
  assumes "\<not> IsLikelyNote line0" "\<not> IsLikelyStyle line0" "\<not> IsLikelyRegion line0"
    and "\<not> IsLikelyCueTiming line0" "IsLikelyCueTiming line1"
  shows "ParseBlock (line0 # line1 # body) p = map_sum id marked (ParseCue line0 (line1 # body) p)"
  using assms
  by (cases "ParseCue line0 (line1 # body) p")
     (auto simp: ParseBlock_def ParseCueWithId_def MaybeCueId_iff marked_def)

lemma ParseBlock_no_id:
  assumes "\<not> IsLikelyNote line0" "\<not> IsLikelyStyle line0" "\<not> IsLikelyRegion line0"
    and "IsLikelyCueTiming line0"
  shows "ParseBlock (line0 # body) p = map_sum id marked (ParseCue [] (line0 # body) p)"
  using assms
  by (cases "ParseCue [] (line0 # body) p")
     (auto simp: ParseBlock_def ParseCueWithNoId_def MaybeCueId_iff marked_def)

lemma ParseBlock_no_shape:
  assumes "\<not> IsLikelyNote line0" "\<not> IsLikelyStyle line0" "\<not> IsLikelyRegion line0"
    and "\<not> IsLikelyCueTiming line0" "rest = [] \<or> \<not> IsLikelyCueTiming (hd rest)"
  shows "ParseBlock (line0 # rest) p = Inr (False, p)"
  using assms
  by (cases rest) (auto simp: ParseBlock_def)

lemma ParseCue_bound:
  assumes "init_cb p = BoundInitCB" "new_text_sample_cb p = Some run"
  shows "\<exists>ok p1. ParseCue id' (line0 # body) p = Inr (ok, p1)"
proof (cases "parsed_time (time_and_style_of line0)")
  case None
  then show ?thesis
    by (auto simp: ParseCue_no_time)
next
  case (Some t)
  obtain st en where t: "t = (st, en)"
    by (cases t)
  show ?thesis
  proof (cases "en \<le> st")
    case True
    with Some t assms(1) show ?thesis
      by (auto simp: ParseCue_dropped)
  next
    case False
    then have "st < en"
      by simp
    from ParseCue_sample [OF Some [unfolded t] this assms] show ?thesis
      by blast
  qed
qed

lemma ParseBlock_cue:
  assumes "cue_candidate block" and "cue_parts block = Some (id', timing, body)"
  shows "ParseBlock block p = map_sum id marked (ParseCue id' (timing # body) p)"
proof -
  from assms(1) obtain line0 rest where block: "block = line0 # rest"
    by (cases block) (auto simp: cue_candidate_def)
  show ?thesis
  proof (cases "IsLikelyCueTiming line0")
    case True
    with assms show ?thesis
      by (simp add: block cue_parts_def cue_candidate_def ParseBlock_no_id)
  next
    case False
    with assms(2) obtain line1 where rest: "rest = line1 # body" and "IsLikelyCueTiming line1"
      and "id' = line0" and "timing = line1"
      by (cases rest) (auto simp: block cue_parts_def split: if_splits)
    with assms(1) False show ?thesis
      by (simp add: block cue_candidate_def ParseBlock_with_id)
  qed
qed

lemma ParseBlock_not_cue:
  assumes "cue_candidate block" and "cue_parts block = None"
  shows "ParseBlock block p = Inr (False, p)"
proof -
  from assms(1) obtain line0 rest where block: "block = line0 # rest"
    by (cases block) (auto simp: cue_candidate_def)
  from assms show ?thesis
    by (cases rest) (auto simp: block cue_parts_def cue_candidate_def ParseBlock_no_shape split: if_splits)
qed

lemma parsed_time_iff: "(parsed_time (time_and_style_of line) \<noteq> None) = timing_ok line"
  by (auto simp: parsed_time_def timing_ok_def tokens_in_order_def split: option.splits)

lemma ParseCue_True_timing:
  assumes "ParseCue id' (line # body) p = Inr (True, p')"
  shows "timing_ok line"
proof (rule ccontr)
  assume "\<not> timing_ok line"
  then have "parsed_time (time_and_style_of line) = None"
    using parsed_time_iff [of line] by (cases "parsed_time (time_and_style_of line)") auto
  with assms show False
    by (simp add: ParseCue_no_time)
qed

lemma announced_explicit:
  "announced p = p\<lparr>stream_info_dispatched := True,
     events := events p @ (if stream_info_dispatched p then []
                           else [InitCbRun [stream_info_of (style_region_config p)]])\<rparr>"
  by (simp add: announced_def)

text \<open>
  The tokens of \<open>SplitString\<close>.
\<close>

lemma split_pieces_no_separator:
  "set cur \<inter> set separators = {} \<Longrightarrow>
   piece \<in> set (split_pieces separators cur input) \<Longrightarrow> set piece \<inter> set separators = {}"
proof (induction input arbitrary: cur)
  case Nil
  then show ?case
    by simp
next
  case (Cons c cs)
  show ?case
  proof (cases "c \<in> set separators")
    case True
    with Cons.prems have "piece = rev cur \<or> piece \<in> set (split_pieces separators [] cs)"
      by simp
    then show ?thesis
      using Cons.IH [of "[]"] Cons.prems(1) by auto
  next
    case False
    with Cons.prems have "piece \<in> set (split_pieces separators (c # cur) cs)"
      by simp
    moreover from False Cons.prems(1) have "set (c # cur) \<inter> set separators = {}"
      by simp
    ultimately show ?thesis
      using Cons.IH [of "c # cur"] by blast
  qed
qed

lemma TrimWhitespaceASCII_subset:
  "set (TrimWhitespaceASCII piece TRIM_ALL) \<subseteq> set piece"
proof -
  have "set (dropWhile P (rev (dropWhile P piece))) \<subseteq> set piece" for P :: "char \<Rightarrow> bool"
    by (auto dest!: set_dropWhileD)
  then show ?thesis
    by (simp add: TrimWhitespaceASCII_def)
qed

lemma TrimWhitespaceASCII_ends:
  assumes "TrimWhitespaceASCII piece TRIM_ALL = t" and "t \<noteq> []"
  shows "\<not> IsAsciiWhitespace (hd t) \<and> \<not> IsAsciiWhitespace (last t)"
proof -
  let ?a = "dropWhile IsAsciiWhitespace piece"
  let ?b = "dropWhile IsAsciiWhitespace (rev ?a)"
  from assms have t: "t = rev ?b" and b: "?b \<noteq> []"
    by (auto simp: TrimWhitespaceASCII_def)
  from b have "\<not> IsAsciiWhitespace (hd ?b)"
    by (rule hd_dropWhile)
  with b have l: "\<not> IsAsciiWhitespace (last t)"
    by (simp add: t last_rev)
  from b have a: "?a \<noteq> []"
    by (cases "?a") simp_all
  then have ha: "\<not> IsAsciiWhitespace (hd ?a)"
    by (rule hd_dropWhile)
  have "last (rev ?a) = hd ?a"
    using a by (simp add: last_rev)
  moreover have "last ?b = last (rev ?a)"
  proof -
    have "rev ?a = takeWhile IsAsciiWhitespace (rev ?a) @ ?b"
      by simp
    then show ?thesis
      using b by (metis last_appendR)
  qed
  ultimately have "hd t = hd ?a"
    using b by (simp add: t hd_rev)
  with ha l show ?thesis
    by simp
qed

lemma time_and_style_tokens:
  assumes "t \<in> set (time_and_style_of line)"
  shows "t \<noteq> [] \<and> CHR '' '' \<notin> set t \<and> \<not> IsAsciiWhitespace (hd t) \<and> \<not> IsAsciiWhitespace (last t)"
proof -
  from assms obtain piece where piece: "piece \<in> set (split_pieces '' '' [] line)"
    and t: "TrimWhitespaceASCII piece TRIM_ALL = t" and ne: "t \<noteq> []"
    by (auto simp: time_and_style_of_def SplitString_def split: if_splits)
  have "CHR '' '' \<notin> set piece"
    using split_pieces_no_separator [of "[]" "'' ''" piece line] piece
    by auto
  with TrimWhitespaceASCII_subset [of piece] t have "CHR '' '' \<notin> set t"
    by auto
  with ne TrimWhitespaceASCII_ends [OF t ne] show ?thesis
    by simp
qed

text \<open>
  One round of the loop of \<open>Parse\<close>.
\<close>

lemma ParseLoop_stops:
  assumes "Next (reader q) = Some (block, r)" and "ParseBlock block (q\<lparr>reader := r\<rparr>) = Inr (False, p')"
  shows "ParseLoop q = Inr (False, p')"
  using assms by (subst ParseLoop.simps) simp

lemma ParseLoop_continues:
  assumes "Next (reader q) = Some (block, r)" and "ParseBlock block (q\<lparr>reader := r\<rparr>) = Inr (True, p')"
  shows "ParseLoop q = ParseLoop p'"
  using assms by (subst ParseLoop.simps) simp

lemma ParseLoop_done:
  assumes "Next (reader q) = None"
  shows "ParseLoop q = Inr (True, q)"
  using assms by (subst ParseLoop.simps) simp

text \<open>
  Rules that evaluate the functions on concrete input.
\<close>

lemmas ts_eval = WebVttTimestampToMs_def parse_hours_def parse_digits_def is_digit_def
  digits_value_def digit_value_def

lemmas line_eval = IsLikelyNote_def IsLikelyStyle_def IsLikelyRegion_def IsLikelyCueTiming_def
  find_def StartsWith_def TrimWhitespaceASCII_def IsAsciiWhitespace_def kWhitespaceASCII_def

lemmas token_eval = time_and_style_of_def SplitString_def TrimWhitespaceASCII_def
  IsAsciiWhitespace_def kWhitespaceASCII_def

lemma ready_callbacks:
  "init_cb ready = BoundInitCB" "new_text_sample_cb ready = Some accept_all"
  by (simp_all add: ready_def)

lemma ready_fields:
  "events ready = []" "stream_info_dispatched ready = False" "saw_cue ready = False"
  "style_region_config ready = []"
  by (simp_all add: ready_def WebVttParser_new_def)

lemma ts_values:
  "WebVttTimestampToMs ''00:01:00.000'' = Some 60000"
  "WebVttTimestampToMs ''01:00:00.000'' = Some 3600000"
  by (simp_all add: ts_eval)

lemma tokens_plain:
  "time_and_style_of ''00:01:00.000 --> 00:01:00.000'' = [''00:01:00.000'', ''-->'', ''00:01:00.000'']"
  "time_and_style_of ''00:01:00.000 --> 01:00:00.000'' = [''00:01:00.000'', ''-->'', ''01:00:00.000'']"
  by (simp_all add: token_eval)

lemma streaming_fields:
  "init_cb (streaming bytes run) = BoundInitCB"
  "new_text_sample_cb (streaming bytes run) = Some run"
  "events (streaming bytes run) = []" "stream_info_dispatched (streaming bytes run) = False"
  "saw_cue (streaming bytes run) = False" "style_region_config (streaming bytes run) = []"
  "initialized (streaming bytes run) = True"
  "reader (streaming bytes run) = \<lparr>buffer = bytes, should_flush = False\<rparr>"
  "(streaming bytes run)\<lparr>reader := \<lparr>buffer = bytes', should_flush = False\<rparr>\<rparr> = streaming bytes' run"
  by (simp_all add: streaming_def WebVttParser_new_def)

lemmas reader_eval = Next_def LF_def CR_def line_of_def

lemma DispatchTextStreamInfo_frame:
  "DispatchTextStreamInfo p = Inr p' \<Longrightarrow>
   initialized p' = initialized p \<and> init_cb p' = init_cb p \<and>
   new_text_sample_cb p' = new_text_sample_cb p \<and> saw_cue p' = saw_cue p \<and>
   style_region_config p' = style_region_config p"
  by (auto simp: DispatchTextStreamInfo_def Let_def split: InitCB.splits)

lemma ParseCue_frame:
  "ParseCue id' block p = Inr (ok, p') \<Longrightarrow>
   initialized p' = initialized p \<and> init_cb p' = init_cb p \<and>
   new_text_sample_cb p' = new_text_sample_cb p \<and> saw_cue p' = saw_cue p \<and>
   style_region_config p' = style_region_config p"
  unfolding ParseCue_def Let_def
  by (auto split: list.splits option.splits sum.splits if_splits prod.splits
      dest: DispatchTextStreamInfo_frame)

lemma ParseBlock_frame:
  "ParseBlock block p = Inr (ok, p') \<Longrightarrow>
   initialized p' = initialized p \<and> init_cb p' = init_cb p \<and>
   new_text_sample_cb p' = new_text_sample_cb p"
  by (auto simp: ParseBlock_def ParseCueWithId_def ParseCueWithNoId_def
      split: list.splits sum.splits if_splits prod.splits
      dest!: ParseCue_frame)

lemma ParseLoop_frame:
  "ParseLoop p = Inr (ok, p') \<Longrightarrow>
   initialized p' = initialized p \<and> init_cb p' = init_cb p \<and>
   new_text_sample_cb p' = new_text_sample_cb p \<and>
   should_flush (reader p') = should_flush (reader p)"
proof (induction p rule: ParseLoop.induct)
  case (1 p)
  show ?case
  proof (cases "Next (reader p)")
    case None
    with "1.prems" show ?thesis
      by (simp add: ParseLoop_done)
  next
    case (Some a)
    obtain block r where a: "a = (block, r)"
      by (cases a)
    from Some a have fl: "should_flush r = should_flush (reader p)"
      by (auto simp: Next_def split: option.splits)
    show ?thesis
    proof (cases "ParseBlock block (p\<lparr>reader := r\<rparr>)")
      case (Inl e)
      with Some a "1.prems" show ?thesis
        by (subst (asm) ParseLoop.simps) simp
    next
      case (Inr b)
      obtain ok1 p1 where b: "b = (ok1, p1)"
        by (cases b)
      from Inr b have f: "initialized p1 = initialized p \<and> init_cb p1 = init_cb p \<and>
          new_text_sample_cb p1 = new_text_sample_cb p" and r: "reader p1 = r"
        by (auto dest: ParseBlock_frame ParseBlock_reader)
      show ?thesis
      proof (cases ok1)
        case False
        with Some a Inr b "1.prems" have "p' = p1"
          by (simp add: ParseLoop_stops)
        with f r fl show ?thesis
          by simp
      next
        case True
        with Some a Inr b have "ParseLoop p = ParseLoop p1"
          by (simp add: ParseLoop_continues)
        with "1.prems" have "ParseLoop p1 = Inr (ok, p')"
          by simp
        from "1.IH" [OF Some a [symmetric] Inr b [symmetric] _ this] True f r fl show ?thesis
          by simp
      qed
    qed
  qed
qed

text \<open>
  Induction over the rounds of the loop.
\<close>

lemma ParseLoop_cases [case_names finished crash stop step]:
  assumes "\<And>p. Next (reader p) = None \<Longrightarrow> Q p (Inr (True, p))"
    and "\<And>p block r e. Next (reader p) = Some (block, r) \<Longrightarrow>
           ParseBlock block (p\<lparr>reader := r\<rparr>) = Inl e \<Longrightarrow> Q p (Inl e)"
    and "\<And>p block r p1. Next (reader p) = Some (block, r) \<Longrightarrow>
           ParseBlock block (p\<lparr>reader := r\<rparr>) = Inr (False, p1) \<Longrightarrow> Q p (Inr (False, p1))"
    and "\<And>p block r p1. Next (reader p) = Some (block, r) \<Longrightarrow>
           ParseBlock block (p\<lparr>reader := r\<rparr>) = Inr (True, p1) \<Longrightarrow>
           Q p1 (ParseLoop p1) \<Longrightarrow> Q p (ParseLoop p1)"
  shows "Q p (ParseLoop p)"
proof (induction p rule: ParseLoop.induct)
  case (1 p)
  show ?case
  proof (cases "Next (reader p)")
    case None
    with assms(1) [of p] show ?thesis
      by (simp add: ParseLoop_done)
  next
    case (Some a)
    obtain block r where a: "a = (block, r)"
      by (cases a)
    show ?thesis
    proof (cases "ParseBlock block (p\<lparr>reader := r\<rparr>)")
      case (Inl e)
      then have "ParseLoop p = Inl e"
        using Some a by (subst ParseLoop.simps) simp
      with assms(2) [of p block r e] Some a Inl show ?thesis
        by simp
    next
      case (Inr b)
      obtain ok1 p1 where b: "b = (ok1, p1)"
        by (cases b)
      show ?thesis
      proof (cases ok1)
        case False
        with Some a Inr b assms(3) [of p block r p1] show ?thesis
          by (simp add: ParseLoop_stops)
      next
        case True
        with Some a Inr b have eq: "ParseLoop p = ParseLoop p1"
          by (simp add: ParseLoop_continues)
        from "1.IH" [OF Some a [symmetric] Inr b [symmetric]] True have "Q p1 (ParseLoop p1)"
          by simp
        with assms(4) [of p block r p1] Some a Inr b True eq show ?thesis
          by simp
      qed
    qed
  qed
qed

text \<open>
  The reader yields non-empty blocks of non-empty lines.
\<close>

lemma scan_nonempty:
  "scan flushed acc cur input = Some (block, rest) \<Longrightarrow> [] \<notin> set acc \<Longrightarrow>
   block \<noteq> [] \<and> [] \<notin> set block"
proof (induction input arbitrary: acc cur)
  case Nil
  then show ?case
    by (auto simp: Let_def split: if_splits)
next
  case (Cons c cs)
  show ?case
  proof (cases "c = LF")
    case False
    with Cons.prems Cons.IH [of acc "c # cur"] show ?thesis
      by simp
  next
    case True
    show ?thesis
    proof (cases "line_of cur = []")
      case False
      with True Cons.prems Cons.IH [of "line_of cur # acc" "[]"] show ?thesis
        by simp
    next
      case blank: True
      show ?thesis
      proof (cases "acc = []")
        case True
        with \<open>c = LF\<close> blank Cons.prems Cons.IH [of "[]" "[]"] show ?thesis
          by simp
      next
        case False
        with True blank Cons.prems show ?thesis
          by auto
      qed
    qed
  qed
qed

lemma Next_nonempty:
  "Next r = Some (block, r') \<Longrightarrow> block \<noteq> [] \<and> [] \<notin> set block"
  by (auto simp: Next_def split: option.splits dest: scan_nonempty)

lemma ParseCue_in_range: "block \<noteq> [] \<Longrightarrow> ParseCue id' block p \<noteq> Inl OutOfRange"
  unfolding ParseCue_def Let_def
  by (auto simp: DispatchTextStreamInfo_def Let_def
      split: list.splits option.splits sum.splits if_splits prod.splits InitCB.splits)

lemma ParseBlock_in_range: "block \<noteq> [] \<Longrightarrow> ParseBlock block p \<noteq> Inl OutOfRange"
proof -
  assume "block \<noteq> []"
  then obtain line0 rest where block: "block = line0 # rest"
    by (cases block) auto
  have a: "ParseCueWithNoId block q \<noteq> Inl OutOfRange" for q
    by (simp add: ParseCueWithNoId_def block ParseCue_in_range)
  have b: "ParseCueWithId block q \<noteq> Inl OutOfRange" if "2 \<le> length block" for q
    using that by (cases rest) (simp_all add: ParseCueWithId_def block ParseCue_in_range)
  show ?thesis
    using a b
    by (auto simp: ParseBlock_def block split: sum.splits prod.splits if_splits)
qed

lemma ParseLoop_in_range: "ParseLoop p \<noteq> Inl OutOfRange"
proof (induction rule: ParseLoop_cases)
  case (crash p block r e)
  then show ?case
    using Next_nonempty [of "reader p" block r] ParseBlock_in_range [of block "p\<lparr>reader := r\<rparr>"]
    by auto
qed simp_all

lemma Parse_in_range: "Parse p \<noteq> Inl OutOfRange"
  by (simp add: Parse_def ParseLoop_in_range Let_def split: option.splits prod.splits)

lemma Parse_no_block:
  "\<not> initialized p \<Longrightarrow> Next (reader p) = None \<Longrightarrow> Parse p = Inr (True, p)"
  by (simp add: Parse_def)

lemma Parse_header_ok:
  "\<not> initialized p \<Longrightarrow> Next (reader p) = Some (block, r) \<Longrightarrow> is_header_block block \<Longrightarrow>
   Parse p = ParseLoop (p\<lparr>reader := r, initialized := True\<rparr>)"
  by (auto simp: Parse_def is_header_block_def BOM_def)

lemma Parse_header_bad:
  assumes "\<not> initialized p" and "Next (reader p) = Some (block, r)" and "\<not> is_header_block block"
  shows "Parse p = Inr (False, p\<lparr>reader := r\<rparr>)"
proof (cases "length block = 1")
  case False
  with assms show ?thesis
    by (simp add: Parse_def)
next
  case True
  then obtain line0 where "block = [line0]"
    by (cases block) auto
  with assms show ?thesis
    by (simp add: Parse_def is_header_block_def BOM_def)
qed

lemmas parse_eval = Parse_buf_def Flush_def PushData_def Flush_reader_def Parse_def Next_def
  LF_def CR_def line_of_def ParseBlock_def ParseCueWithId_def ParseCueWithNoId_def ParseCue_def
  Let_def DispatchTextStreamInfo_def parsed_time_def SplitString_def TrimWhitespaceASCII_def
  IsAsciiWhitespace_def kWhitespaceASCII_def IsLikelyNote_def IsLikelyStyle_def
  IsLikelyRegion_def IsLikelyCueTiming_def MaybeCueId_def find_def StartsWith_def UpdateConfig_def
  WebVttTimestampToMs_def parse_hours_def parse_digits_def is_digit_def digits_value_def
  digit_value_def append_styles_drop append_payload_drop SetTime_def set_id_def
  TextSample_new_def kStreamIndex_def WebVttParser_new_def BlockReader_new_def

lemma Parse_buf_doc_bad: "Parse_buf doc_bad ready = Inr (False, after_bad)"
  apply (simp add: parse_eval ready_def doc_bad_def after_bad_def)
  apply (subst ParseLoop.simps, simp add: parse_eval)
  done

lemma Flush_after_bad:
  "Flush after_bad =
   Inr (True, ready\<lparr>reader := \<lparr>buffer = [], should_flush = True\<rparr>, initialized := True,
      saw_cue := True, stream_info_dispatched := True,
      events := [InitCbRun [stream_info_of []],
                 NewTextSampleCbRun 0 (cue_sample [] 60000 3600000 [] [''subtitle''])]\<rparr>)"
  apply (simp add: parse_eval ready_def after_bad_def)
  apply (subst ParseLoop.simps, simp add: parse_eval accept_all_def)
  apply (subst ParseLoop.simps, simp add: parse_eval stream_info_of_def cue_sample_def)
  done

lemma Parse_buf_doc_one_cue:
  "Parse_buf doc_one_cue ready =
   Inr (True, ready\<lparr>reader := \<lparr>buffer = [], should_flush = False\<rparr>, initialized := True,
      saw_cue := True, stream_info_dispatched := True,
      events := [InitCbRun [stream_info_of []],
                 NewTextSampleCbRun 0 (cue_sample [] 60000 3600000 [] [''subtitle''])]\<rparr>)"
  apply (simp add: parse_eval ready_def doc_one_cue_def)
  apply (subst ParseLoop.simps, simp add: parse_eval accept_all_def)
  apply (subst ParseLoop.simps, simp add: parse_eval stream_info_of_def cue_sample_def)
  done

text \<open>
  A block that is complete stays the same block when more bytes arrive behind it: the
  reader does not depend on the chunks.
\<close>

lemma scan_append:
  "scan False acc cur input = Some (block, rest) \<Longrightarrow>
   scan flushed acc cur (input @ bytes) = Some (block, rest @ bytes)"
proof (induction input arbitrary: acc cur)
  case Nil
  then show ?case
    by simp
next
  case (Cons c cs)
  show ?case
  proof (cases "c = LF")
    case False
    with Cons.prems Cons.IH [of acc "c # cur"] show ?thesis
      by simp
  next
    case True
    show ?thesis
    proof (cases "line_of cur = []")
      case False
      with True Cons.prems Cons.IH [of "line_of cur # acc" "[]"] show ?thesis
        by simp
    next
      case blank: True
      show ?thesis
      proof (cases "acc = []")
        case True
        with \<open>c = LF\<close> blank Cons.prems Cons.IH [of "[]" "[]"] show ?thesis
          by simp
      next
        case False
        with True blank Cons.prems show ?thesis
          by auto
      qed
    qed
  qed
qed

lemma Next_append:
  assumes "\<not> should_flush r" and "Next r = Some (block, r')"
  shows "Next \<lparr>buffer = buffer r @ bytes, should_flush = flushed\<rparr> =
     Some (block, \<lparr>buffer = buffer r' @ bytes, should_flush = flushed\<rparr>)"
    and "\<not> should_flush r'"
proof -
  from assms obtain rest where s: "scan False [] [] (buffer r) = Some (block, rest)"
    and r': "r' = r\<lparr>buffer := rest\<rparr>"
    by (auto simp: Next_def split: option.splits)
  from scan_append [OF s, of flushed bytes] r'
  show "Next \<lparr>buffer = buffer r @ bytes, should_flush = flushed\<rparr> =
     Some (block, \<lparr>buffer = buffer r' @ bytes, should_flush = flushed\<rparr>)"
    by (simp add: Next_def)
  from assms(1) r' show "\<not> should_flush r'"
    by simp
qed

lemma DispatchTextStreamInfo_with_reader:
  "DispatchTextStreamInfo (p\<lparr>reader := r\<rparr>) =
     (case DispatchTextStreamInfo p of Inl e \<Rightarrow> Inl e | Inr p' \<Rightarrow> Inr (p'\<lparr>reader := r\<rparr>))"
  by (simp add: DispatchTextStreamInfo_def Let_def split: InitCB.splits)

lemma ParseCue_with_reader:
  "ParseCue id' block (p\<lparr>reader := r\<rparr>) = with_reader r (ParseCue id' block p)"
  unfolding ParseCue_def Let_def with_reader_def
  by (auto simp: DispatchTextStreamInfo_with_reader
      split: list.splits option.splits sum.splits prod.splits)

lemma ParseBlock_with_reader:
  "ParseBlock block (p\<lparr>reader := r\<rparr>) = with_reader r (ParseBlock block p)"
  unfolding ParseBlock_def ParseCueWithId_def ParseCueWithNoId_def
  by (auto simp: ParseCue_with_reader with_reader_def
      split: list.splits option.splits sum.splits prod.splits)

lemma ParseBlock_more:
  assumes "ParseBlock block (p\<lparr>reader := r\<rparr>) = res"
  shows "ParseBlock block ((with_more bytes flushed p)
      \<lparr>reader := \<lparr>buffer = buffer r @ bytes, should_flush = flushed\<rparr>\<rparr>) =
    (case res of Inl e \<Rightarrow> Inl e
     | Inr (ok, p1) \<Rightarrow>
         Inr (ok, p1\<lparr>reader := \<lparr>buffer = buffer r @ bytes, should_flush = flushed\<rparr>\<rparr>))"
  using assms ParseBlock_with_reader [where block = block and p = p and r = r]
    ParseBlock_with_reader [where block = block and p = p
      and r = "\<lparr>buffer = buffer r @ bytes, should_flush = flushed\<rparr>"]
  by (auto simp: with_more_def with_reader_def split: sum.splits)

lemma ParseLoop_more:
  "\<not> should_flush (reader p) \<longrightarrow>
     (\<forall>p1. ParseLoop p = Inr (True, p1) \<longrightarrow>
        ParseLoop (with_more bytes flushed p) = ParseLoop (with_more bytes flushed p1)) \<and>
     (\<forall>p1. ParseLoop p = Inr (False, p1) \<longrightarrow>
        ParseLoop (with_more bytes flushed p) = Inr (False, with_more bytes flushed p1)) \<and>
     (\<forall>e. ParseLoop p = Inl e \<longrightarrow> ParseLoop (with_more bytes flushed p) = Inl e)"
proof -
  let ?Q = "\<lambda>(p :: WebVttParser) res. \<not> should_flush (reader p) \<longrightarrow>
     (\<forall>p1. res = Inr (True, p1) \<longrightarrow>
        ParseLoop (with_more bytes flushed p) = ParseLoop (with_more bytes flushed p1)) \<and>
     (\<forall>p1. res = Inr (False, p1) \<longrightarrow>
        ParseLoop (with_more bytes flushed p) = Inr (False, with_more bytes flushed p1)) \<and>
     (\<forall>e. res = Inl e \<longrightarrow> ParseLoop (with_more bytes flushed p) = Inl e)"
  have step: "Next (reader (with_more bytes flushed p)) =
        Some (block, \<lparr>buffer = buffer r @ bytes, should_flush = flushed\<rparr>) \<and>
      \<not> should_flush r"
    if "Next (reader p) = Some (block, r)" "\<not> should_flush (reader p)"
    for p :: WebVttParser and block r
    using Next_append(1) [OF that(2,1), of bytes flushed] Next_append(2) [OF that(2,1)]
    by (simp add: with_more_def)
  have "?Q p (ParseLoop p)"
  proof (rule ParseLoop_cases [where Q = ?Q])
    fix p :: WebVttParser
    show "?Q p (Inr (True, p))"
      by simp
  next
    fix p :: WebVttParser and block r e
    assume n: "Next (reader p) = Some (block, r)"
      and b: "ParseBlock block (p\<lparr>reader := r\<rparr>) = Inl e"
    show "?Q p (Inl e)"
    proof (intro impI)
      assume "\<not> should_flush (reader p)"
      with step [OF n] ParseBlock_more [OF b, of bytes flushed]
      have "ParseLoop (with_more bytes flushed p) = Inl e"
        by (subst ParseLoop.simps) simp
      then show "(\<forall>p1. Inl e = Inr (True, p1) \<longrightarrow>
          ParseLoop (with_more bytes flushed p) = ParseLoop (with_more bytes flushed p1)) \<and>
        (\<forall>p1. Inl e = Inr (False, p1) \<longrightarrow>
          ParseLoop (with_more bytes flushed p) = Inr (False, with_more bytes flushed p1)) \<and>
        (\<forall>e'. Inl e = Inl e' \<longrightarrow> ParseLoop (with_more bytes flushed p) = Inl e')"
        by simp
    qed
  next
    fix p :: WebVttParser and block r p1
    assume n: "Next (reader p) = Some (block, r)"
      and b: "ParseBlock block (p\<lparr>reader := r\<rparr>) = Inr (False, p1)"
    show "?Q p (Inr (False, p1))"
    proof (intro impI)
      assume u: "\<not> should_flush (reader p)"
      from b have "with_more bytes flushed p1 =
          p1\<lparr>reader := \<lparr>buffer = buffer r @ bytes, should_flush = flushed\<rparr>\<rparr>"
        by (auto simp: with_more_def dest: ParseBlock_reader)
      with step [OF n u] ParseBlock_more [OF b, of bytes flushed]
      have "ParseLoop (with_more bytes flushed p) = Inr (False, with_more bytes flushed p1)"
        by (simp add: ParseLoop_stops)
      then show "(\<forall>p2. Inr (False, p1) = Inr (True, p2) \<longrightarrow>
          ParseLoop (with_more bytes flushed p) = ParseLoop (with_more bytes flushed p2)) \<and>
        (\<forall>p2. Inr (False, p1) = Inr (False, p2) \<longrightarrow>
          ParseLoop (with_more bytes flushed p) = Inr (False, with_more bytes flushed p2)) \<and>
        (\<forall>e. Inr (False, p1) = Inl e \<longrightarrow> ParseLoop (with_more bytes flushed p) = Inl e)"
        by simp
    qed
  next
    fix p :: WebVttParser and block r p1
    assume n: "Next (reader p) = Some (block, r)"
      and b: "ParseBlock block (p\<lparr>reader := r\<rparr>) = Inr (True, p1)"
      and ih: "?Q p1 (ParseLoop p1)"
    show "?Q p (ParseLoop p1)"
    proof (intro impI)
      assume u: "\<not> should_flush (reader p)"
      from b have r1: "reader p1 = r"
        by (auto dest: ParseBlock_reader)
      then have m: "with_more bytes flushed p1 =
          p1\<lparr>reader := \<lparr>buffer = buffer r @ bytes, should_flush = flushed\<rparr>\<rparr>"
        by (simp add: with_more_def)
      from step [OF n u] r1 have u1: "\<not> should_flush (reader p1)"
        by simp
      from m step [OF n u] ParseBlock_more [OF b, of bytes flushed]
      have "ParseLoop (with_more bytes flushed p) = ParseLoop (with_more bytes flushed p1)"
        by (simp add: ParseLoop_continues)
      with ih u1 show "(\<forall>p2. ParseLoop p1 = Inr (True, p2) \<longrightarrow>
          ParseLoop (with_more bytes flushed p) = ParseLoop (with_more bytes flushed p2)) \<and>
        (\<forall>p2. ParseLoop p1 = Inr (False, p2) \<longrightarrow>
          ParseLoop (with_more bytes flushed p) = Inr (False, with_more bytes flushed p2)) \<and>
        (\<forall>e. ParseLoop p1 = Inl e \<longrightarrow> ParseLoop (with_more bytes flushed p) = Inl e)"
        by simp
    qed
  qed
  then show ?thesis .
qed

lemma with_more_twice:
  "with_more bytes' flushed' (with_more bytes flushed p) = with_more (bytes @ bytes') flushed' p"
  by (simp add: with_more_def)

lemma with_more_fields:
  "initialized (with_more bytes flushed p) = initialized p"
  "events (with_more bytes flushed p) = events p"
  "reader (with_more bytes flushed p) = \<lparr>buffer = buffer (reader p) @ bytes, should_flush = flushed\<rparr>"
  by (simp_all add: with_more_def)

lemma with_more_nothing: "\<not> should_flush (reader p) \<Longrightarrow> with_more [] False p = p"
  by (cases p, cases "reader p") (simp add: with_more_def)

lemma BlockReader_updates:
  "r\<lparr>buffer := bytes\<rparr> = \<lparr>buffer = bytes, should_flush = should_flush r\<rparr>"
  "r\<lparr>should_flush := flushed\<rparr> = \<lparr>buffer = buffer r, should_flush = flushed\<rparr>"
  by (cases r, simp)+

lemma Parse_buf_more: "\<not> should_flush (reader p) \<Longrightarrow> Parse_buf bytes p = Parse (with_more bytes False p)"
  by (simp add: Parse_buf_def PushData_def with_more_def BlockReader_updates)

lemma Flush_more: "Flush p = Parse (with_more [] True p)"
  by (simp add: Flush_def Flush_reader_def with_more_def BlockReader_updates)

lemma Parse_more:
  assumes u: "\<not> should_flush (reader p)"
  shows "(\<forall>p1. Parse p = Inr (True, p1) \<longrightarrow>
        Parse (with_more bytes flushed p) = Parse (with_more bytes flushed p1)) \<and>
     (\<forall>p1. Parse p = Inr (False, p1) \<longrightarrow>
        Parse (with_more bytes flushed p) = Inr (False, with_more bytes flushed p1)) \<and>
     (\<forall>e. Parse p = Inl e \<longrightarrow> Parse (with_more bytes flushed p) = Inl e)"
proof (cases "initialized p")
  case True
  have "initialized p1" if "ParseLoop p = Inr (True, p1)" for p1
    using that True ParseLoop_frame [of p True p1] by simp
  with True ParseLoop_more [of p bytes flushed] u show ?thesis
    by (simp add: Parse_def with_more_fields(1))
next
  case False
  show ?thesis
  proof (cases "Next (reader p)")
    case None
    with False show ?thesis
      by (simp add: Parse_no_block)
  next
    case (Some a)
    obtain block r where a: "a = (block, r)"
      by (cases a)
    from Next_append(1) [OF u Some [unfolded a], of bytes flushed] Next_append(2) [OF u Some [unfolded a]]
    have n: "Next (reader (with_more bytes flushed p)) =
        Some (block, \<lparr>buffer = buffer r @ bytes, should_flush = flushed\<rparr>)"
      and ur: "\<not> should_flush r"
      by (simp_all add: with_more_fields)
    have i: "\<not> initialized (with_more bytes flushed p)"
      using False by (simp add: with_more_fields)
    show ?thesis
    proof (cases "is_header_block block")
      case hdr: False
      from Parse_header_bad [OF False Some [unfolded a] hdr] Parse_header_bad [OF i n hdr]
      show ?thesis
        by (simp add: with_more_def)
    next
      case True
      let ?q = "p\<lparr>reader := r, initialized := True\<rparr>"
      have q: "(with_more bytes flushed p)\<lparr>reader := \<lparr>buffer = buffer r @ bytes, should_flush = flushed\<rparr>,
          initialized := True\<rparr> = with_more bytes flushed ?q"
        by (simp add: with_more_def)
      have "initialized p1" if "ParseLoop ?q = Inr (True, p1)" for p1
        using that ParseLoop_frame [of ?q True p1] by simp
      then have "Parse (with_more bytes flushed p1) = ParseLoop (with_more bytes flushed p1)"
        if "ParseLoop ?q = Inr (True, p1)" for p1
        using that by (simp add: Parse_def with_more_fields(1))
      with Parse_header_ok [OF False Some [unfolded a] True] Parse_header_ok [OF i n True]
        ParseLoop_more [of ?q bytes flushed] ur show ?thesis
        by (simp add: q)
    qed
  qed
qed

lemma Parse_unflushed:
  assumes "\<not> should_flush (reader p)" and "Parse p = Inr (ok, p')"
  shows "\<not> should_flush (reader p')"
proof (cases "initialized p")
  case True
  with assms ParseLoop_frame [of p ok p'] show ?thesis
    by (simp add: Parse_def)
next
  case False
  show ?thesis
  proof (cases "Next (reader p)")
    case None
    with False assms show ?thesis
      by (simp add: Parse_no_block)
  next
    case (Some a)
    obtain block r where a: "a = (block, r)"
      by (cases a)
    from Next_append(2) [OF assms(1) Some [unfolded a]] have ur: "\<not> should_flush r" .
    show ?thesis
    proof (cases "is_header_block block")
      case True
      with Parse_header_ok [OF False Some [unfolded a] True] assms(2) ur
        ParseLoop_frame [of "p\<lparr>reader := r, initialized := True\<rparr>" ok p']
      show ?thesis
        by simp
    next
      case hdr: False
      with Parse_header_bad [OF False Some [unfolded a] hdr] assms(2) ur show ?thesis
        by auto
    qed
  qed
qed

text \<open>
  Feeding in chunks.
\<close>

lemma feed_whole_append:
  assumes u: "\<not> should_flush (reader p)"
  shows "(\<forall>p1. Parse_buf bytes p = Inr (True, p1) \<longrightarrow>
           feed [bytes @ bytes'] p = feed [bytes'] p1) \<and>
         (\<forall>p1. Parse_buf bytes p = Inr (False, p1) \<longrightarrow>
           outcome (feed [bytes @ bytes'] p) = Inr (False, events p1)) \<and>
         (\<forall>e. Parse_buf bytes p = Inl e \<longrightarrow> feed [bytes @ bytes'] p = Inl e)"
proof -
  let ?q = "with_more bytes False p"
  have uq: "\<not> should_flush (reader ?q)"
    by (simp add: with_more_fields)
  have whole: "Parse_buf (bytes @ bytes') p = Parse (with_more bytes' False ?q)"
    using u by (simp add: Parse_buf_more with_more_twice)
  have part: "Parse_buf bytes p = Parse ?q"
    using u by (simp add: Parse_buf_more)
  have "Parse_buf bytes' p1 = Parse (with_more bytes' False p1)" if "Parse ?q = Inr (True, p1)" for p1
    using Parse_unflushed [OF uq that] by (simp add: Parse_buf_more)
  with Parse_more [OF uq, of bytes' False] show ?thesis
    by (simp add: whole part outcome_def with_more_fields)
qed

lemma feed_nothing:
  assumes u: "\<not> should_flush (reader p)"
  shows "outcome (feed [[]] p) = outcome (feed [] p)"
proof -
  have part: "Parse_buf [] p = Parse p"
    using u by (simp add: Parse_buf_more with_more_nothing)
  show ?thesis
  proof (cases "Parse p")
    case (Inl e)
    with Parse_more [OF u, of "[]" True] show ?thesis
      by (simp add: part Flush_more)
  next
    case (Inr a)
    obtain ok p1 where a: "a = (ok, p1)"
      by (cases a)
    from Inr a Parse_more [OF u, of "[]" True] show ?thesis
      by (cases ok) (simp_all add: part Flush_more outcome_def with_more_fields)
  qed
qed

text \<open>
  Style and region blocks and the configuration.
\<close>

lemma trim_trailing_prefix:
  assumes "TrimWhitespaceASCII line TRIM_TRAILING = word"
  shows "\<exists>rest. line = word @ rest"
proof -
  have "rev line = takeWhile IsAsciiWhitespace (rev line) @ dropWhile IsAsciiWhitespace (rev line)"
    by simp
  then have "line = rev (dropWhile IsAsciiWhitespace (rev line)) @
      rev (takeWhile IsAsciiWhitespace (rev line))"
    by (metis rev_append rev_rev_ident)
  with assms show ?thesis
    by (auto simp: TrimWhitespaceASCII_def)
qed

lemma style_region_not_note:
  assumes "IsLikelyStyle line \<or> IsLikelyRegion line"
  shows "\<not> IsLikelyNote line" and "line \<noteq> []"
proof -
  from assms obtain rest where "line = ''STYLE'' @ rest \<or> line = ''REGION'' @ rest"
    using trim_trailing_prefix [of line "''STYLE''"] trim_trailing_prefix [of line "''REGION''"]
    by (auto simp: IsLikelyStyle_def IsLikelyRegion_def)
  then show "\<not> IsLikelyNote line" and "line \<noteq> []"
    by (auto simp: IsLikelyNote_def StartsWith_def)
qed

lemma JoinString_nonempty: "x \<noteq> [] \<Longrightarrow> JoinString (x # xs) sep \<noteq> []"
  by (cases xs) simp_all

lemma JoinString_merge: "JoinString (x # y # ys) sep = JoinString ((x @ sep @ y) # ys) sep"
  by (cases ys) simp_all

lemma ParseBlock_config:
  assumes "style_or_region block"
  shows "ParseBlock block p =
     Inr (True, if saw_cue p then p
                else p\<lparr>style_region_config := joined_blocks (style_region_config p) [block]\<rparr>)"
    and "JoinString block [LF] \<noteq> []"
proof -
  from assms obtain line0 rest where block: "block = line0 # rest"
    and sr: "IsLikelyStyle line0 \<or> IsLikelyRegion line0"
    by (cases block) (auto simp: style_or_region_def)
  from style_region_not_note [OF sr] show "JoinString block [LF] \<noteq> []"
    by (simp add: block JoinString_nonempty)
  from style_region_not_note(1) [OF sr] sr show "ParseBlock block p =
     Inr (True, if saw_cue p then p
                else p\<lparr>style_region_config := joined_blocks (style_region_config p) [block]\<rparr>)"
    by (simp add: block ParseBlock_style_region config_added_def joined_blocks_def)
qed

lemma joined_blocks_Cons:
  assumes "JoinString block [LF] \<noteq> []"
  shows "joined_blocks (joined_blocks config [block]) blocks = joined_blocks config (block # blocks)"
  using assms by (cases blocks) (simp_all add: joined_blocks_def JoinString_merge)

lemma run_blocks_config:
  assumes "\<forall>block\<in>set blocks. style_or_region block" and "\<not> saw_cue p"
  shows "run_blocks blocks p =
     Inr (True, p\<lparr>style_region_config := joined_blocks (style_region_config p) blocks\<rparr>)"
  using assms
proof (induction blocks arbitrary: p)
  case Nil
  then show ?case
    by (simp add: joined_blocks_def)
next
  case (Cons block blocks)
  let ?p = "p\<lparr>style_region_config := joined_blocks (style_region_config p) [block]\<rparr>"
  from Cons.prems have sr: "style_or_region block"
    by simp
  from ParseBlock_config(1) [OF sr, of p] Cons.prems(2)
  have "run_blocks (block # blocks) p = run_blocks blocks ?p"
    by simp
  also from Cons.prems have "\<dots> =
      Inr (True, ?p\<lparr>style_region_config := joined_blocks (style_region_config ?p) blocks\<rparr>)"
    by (intro Cons.IH) simp_all
  finally show ?case
    using ParseBlock_config(2) [OF sr] by (simp add: joined_blocks_Cons)
qed

lemma run_blocks_dropped:
  assumes "\<forall>block\<in>set blocks. style_or_region block" and "saw_cue p"
  shows "run_blocks blocks p = Inr (True, p)"
  using assms
proof (induction blocks)
  case Nil
  then show ?case
    by simp
next
  case (Cons block blocks)
  then show ?case
    using ParseBlock_config(1) [of block p] by simp
qed

lemma kept_refl: "kept p p"
  by (simp add: kept_def)

lemma kept_trans: "kept p p1 \<Longrightarrow> kept p1 p2 \<Longrightarrow> kept p p2"
  by (auto simp: kept_def)

lemma kept_reader: "kept (p\<lparr>reader := r\<rparr>) p' = kept p p'" "kept p (p'\<lparr>reader := r\<rparr>) = kept p p'"
  "kept (p\<lparr>initialized := i\<rparr>) p' = kept p p'"
  by (simp_all add: kept_def dispatch_consistent_def)

text \<open>
  What the functions keep.
\<close>

lemma dispatches_append: "dispatches (xs @ ys) = dispatches xs @ dispatches ys"
  by (simp add: dispatches_def)

lemma DispatchTextStreamInfo_trace:
  "DispatchTextStreamInfo p = Inr p' \<Longrightarrow>
   stream_info_dispatched p' \<and>
   events p' = events p @ [InitCbRun [stream_info_of (style_region_config p)]]"
  by (auto simp: DispatchTextStreamInfo_def Let_def stream_info_of_def split: InitCB.splits)

lemma ParseCue_trace:
  assumes "ParseCue id' block p = Inr (ok, p')"
  shows "dispatches (events p') = dispatches (events p) @
      (if stream_info_dispatched p' \<and> \<not> stream_info_dispatched p
       then [[stream_info_of (style_region_config p)]] else [])"
    and "stream_info_dispatched p \<longrightarrow> stream_info_dispatched p'"
  using assms unfolding ParseCue_def Let_def
  by (auto simp: dispatches_append dispatches_def
      split: list.splits option.splits sum.splits if_splits prod.splits
      dest!: DispatchTextStreamInfo_trace)

lemma ParseBlock_result:
  assumes "ParseBlock block p = Inr (ok, p')"
  obtains (same) "p' = p"
    | (config) "p' = config_added block p"
    | (cue) id' timing body ok1 p1 where "ParseCue id' (timing # body) p = Inr (ok1, p1)"
        and "p' = p1 \<or> p' = p1\<lparr>saw_cue := True\<rparr>"
proof -
  from assms obtain line0 rest where block: "block = line0 # rest"
    by (cases block) (auto simp: ParseBlock_def)
  show thesis
  proof (cases "IsLikelyNote line0")
    case True
    with assms same show ?thesis
      by (simp add: block ParseBlock_note)
  next
    case False
    show ?thesis
    proof (cases "IsLikelyStyle line0 \<or> IsLikelyRegion line0")
      case True
      with False assms config show ?thesis
        by (simp add: block ParseBlock_style_region)
    next
      case sr: False
      with False have c: "cue_candidate block"
        by (simp add: cue_candidate_def block)
      show ?thesis
      proof (cases "cue_parts block")
        case None
        with c assms same show ?thesis
          by (simp add: ParseBlock_not_cue)
      next
        case (Some t)
        obtain id' timing body where t: "t = (id', timing, body)"
          by (cases t)
        from ParseBlock_cue [OF c Some [unfolded t], of p] assms
        obtain ok1 p1 where "ParseCue id' (timing # body) p = Inr (ok1, p1)"
          and "(ok, p') = marked (ok1, p1)"
          by (cases "ParseCue id' (timing # body) p") auto
        with cue show ?thesis
          by (auto simp: marked_def split: if_splits)
      qed
    qed
  qed
qed

lemma ParseBlock_trace:
  assumes "ParseBlock block p = Inr (ok, p')"
  shows "dispatches (events p') = dispatches (events p) @
      (if stream_info_dispatched p' \<and> \<not> stream_info_dispatched p
       then [[stream_info_of (style_region_config p)]] else [])"
    and "stream_info_dispatched p \<longrightarrow> stream_info_dispatched p'"
    and "saw_cue p \<longrightarrow> saw_cue p' \<and> style_region_config p' = style_region_config p"
  using assms
proof (atomize (full), cases rule: ParseBlock_result)
  case same
  then show "(dispatches (events p') = dispatches (events p) @
      (if stream_info_dispatched p' \<and> \<not> stream_info_dispatched p
       then [[stream_info_of (style_region_config p)]] else [])) \<and>
    (stream_info_dispatched p \<longrightarrow> stream_info_dispatched p') \<and>
    (saw_cue p \<longrightarrow> saw_cue p' \<and> style_region_config p' = style_region_config p)"
    by simp
next
  case config
  then show "(dispatches (events p') = dispatches (events p) @
      (if stream_info_dispatched p' \<and> \<not> stream_info_dispatched p
       then [[stream_info_of (style_region_config p)]] else [])) \<and>
    (stream_info_dispatched p \<longrightarrow> stream_info_dispatched p') \<and>
    (saw_cue p \<longrightarrow> saw_cue p' \<and> style_region_config p' = style_region_config p)"
    by (simp add: config_added_def)
next
  case (cue id' timing body ok1 p1)
  from ParseCue_trace [OF cue(1)] ParseCue_frame [OF cue(1)] cue(2)
  show "(dispatches (events p') = dispatches (events p) @
      (if stream_info_dispatched p' \<and> \<not> stream_info_dispatched p
       then [[stream_info_of (style_region_config p)]] else [])) \<and>
    (stream_info_dispatched p \<longrightarrow> stream_info_dispatched p') \<and>
    (saw_cue p \<longrightarrow> saw_cue p' \<and> style_region_config p' = style_region_config p)"
    by auto
qed

lemma ParseBlock_kept: "ParseBlock block p = Inr (ok, p') \<Longrightarrow> kept p p'"
  using ParseBlock_trace [of block p ok p']
  by (auto simp: kept_def dispatch_consistent_def split: if_splits)

lemma ParseLoop_kept: "ParseLoop p = Inr (ok, p') \<longrightarrow> kept p p'"
proof -
  let ?Q = "\<lambda>(p :: WebVttParser) res. res = Inr (ok, p') \<longrightarrow> kept p p'"
  have "?Q p (ParseLoop p)"
  proof (rule ParseLoop_cases [where Q = ?Q])
    fix p :: WebVttParser
    show "?Q p (Inr (True, p))"
      by (auto simp: kept_refl)
  next
    fix p :: WebVttParser and e :: error
    show "?Q p (Inl e)"
      by simp
  next
    fix p :: WebVttParser and block r p1
    assume "ParseBlock block (p\<lparr>reader := r\<rparr>) = Inr (False, p1)"
    from ParseBlock_kept [OF this] show "?Q p (Inr (False, p1))"
      by (auto simp: kept_reader)
  next
    fix p :: WebVttParser and block r p1
    assume "ParseBlock block (p\<lparr>reader := r\<rparr>) = Inr (True, p1)" and "?Q p1 (ParseLoop p1)"
    with ParseBlock_kept [of block "p\<lparr>reader := r\<rparr>" True p1] show "?Q p (ParseLoop p1)"
      by (auto simp: kept_reader intro: kept_trans)
  qed
  then show ?thesis .
qed

lemma Parse_kept:
  assumes "Parse p = Inr (ok, p')"
  shows "kept p p'"
proof (cases "initialized p")
  case True
  with assms ParseLoop_kept [of p ok p'] show ?thesis
    by (simp add: Parse_def)
next
  case False
  show ?thesis
  proof (cases "Next (reader p)")
    case None
    with False assms show ?thesis
      by (simp add: Parse_no_block kept_refl)
  next
    case (Some a)
    obtain block r where a: "a = (block, r)"
      by (cases a)
    show ?thesis
    proof (cases "is_header_block block")
      case True
      with Parse_header_ok [OF False Some [unfolded a] True] assms
        ParseLoop_kept [of "p\<lparr>reader := r, initialized := True\<rparr>" ok p']
      show ?thesis
        by (simp add: kept_reader)
    next
      case hdr: False
      with Parse_header_bad [OF False Some [unfolded a] hdr] assms show ?thesis
        by (auto simp: kept_reader kept_refl)
    qed
  qed
qed

lemma run_blocks_with_reader:
  "run_blocks blocks (p\<lparr>reader := r\<rparr>) = with_reader r (run_blocks blocks p)"
proof (induction blocks arbitrary: p)
  case Nil
  then show ?case
    by (simp add: with_reader_def)
next
  case (Cons block blocks)
  show ?case
  proof (cases "ParseBlock block p")
    case (Inl e)
    then show ?thesis
      by (simp add: ParseBlock_with_reader with_reader_def)
  next
    case (Inr a)
    obtain ok p1 where a: "a = (ok, p1)"
      by (cases a)
    with Inr Cons.IH [of p1] show ?thesis
      by (simp add: ParseBlock_with_reader with_reader_def)
  qed
qed

lemma ParseLoop_run_blocks:
  "ParseLoop p = Inr (ok, p') \<longrightarrow>
     (\<exists>blocks. run_blocks blocks (p\<lparr>reader := reader p'\<rparr>) = Inr (ok, p'))"
proof -
  let ?Q = "\<lambda>(p :: WebVttParser) res. res = Inr (ok, p') \<longrightarrow>
     (\<exists>blocks. run_blocks blocks (p\<lparr>reader := reader p'\<rparr>) = Inr (ok, p'))"
  have "?Q p (ParseLoop p)"
  proof (rule ParseLoop_cases [where Q = ?Q])
    fix p :: WebVttParser
    have "run_blocks [] (p\<lparr>reader := reader p\<rparr>) = Inr (True, p)"
      by simp
    then show "?Q p (Inr (True, p))"
      by blast
  next
    fix p :: WebVttParser and e :: error
    show "?Q p (Inl e)"
      by simp
  next
    fix p :: WebVttParser and block r p1
    assume b: "ParseBlock block (p\<lparr>reader := r\<rparr>) = Inr (False, p1)"
    then have "reader p1 = r"
      by (auto dest: ParseBlock_reader)
    with b have "run_blocks [block] (p\<lparr>reader := reader p1\<rparr>) = Inr (False, p1)"
      by simp
    then show "?Q p (Inr (False, p1))"
      by blast
  next
    fix p :: WebVttParser and block r p1
    assume b: "ParseBlock block (p\<lparr>reader := r\<rparr>) = Inr (True, p1)" and ih: "?Q p1 (ParseLoop p1)"
    show "?Q p (ParseLoop p1)"
    proof
      assume "ParseLoop p1 = Inr (ok, p')"
      with ih obtain blocks where r: "run_blocks blocks (p1\<lparr>reader := reader p'\<rparr>) = Inr (ok, p')"
        by blast
      from b have "ParseBlock block (p\<lparr>reader := reader p'\<rparr>) = Inr (True, p1\<lparr>reader := reader p'\<rparr>)"
        using ParseBlock_with_reader [where block = block and p = p and r = r]
          ParseBlock_with_reader [where block = block and p = p and r = "reader p'"]
        by (auto simp: with_reader_def split: sum.splits)
      with r have "run_blocks (block # blocks) (p\<lparr>reader := reader p'\<rparr>) = Inr (ok, p')"
        by simp
      then show "\<exists>blocks. run_blocks blocks (p\<lparr>reader := reader p'\<rparr>) = Inr (ok, p')"
        by blast
    qed
  qed
  then show ?thesis .
qed

lemma feed_doc_flushed:
  "outcome (feed [doc_flushed] ready) =
     Inr (True, [InitCbRun [stream_info_of []],
                 NewTextSampleCbRun 0 (cue_sample [] 60000 3600000 [] [''subtitle''])])"
  apply (simp add: parse_eval ready_def doc_flushed_def outcome_def)
  apply (subst ParseLoop.simps, simp add: parse_eval)
  apply (subst ParseLoop.simps, simp add: parse_eval accept_all_def)
  apply (subst ParseLoop.simps, simp add: parse_eval stream_info_of_def cue_sample_def)
  done

lemma concat_bytes: "concat (map (\<lambda>byte. [byte]) bytes) = bytes"
  by (induction bytes) simp_all

lemma Parse_buf_doc_styles: "Parse_buf doc_styles ready = Inr (True, after_styles)"
  apply (simp add: parse_eval ready_def doc_styles_def after_styles_def blob_def)
  apply (subst ParseLoop.simps, simp add: parse_eval)
  apply (subst ParseLoop.simps, simp add: parse_eval)
  apply (subst ParseLoop.simps, simp add: parse_eval accept_all_def)
  apply (subst ParseLoop.simps, simp add: parse_eval)
  apply (subst ParseLoop.simps, simp add: parse_eval stream_info_of_def cue_sample_def)
  done

text \<open>
  The tokens of \<open>SplitString\<close> and the tokens between whitespace: they agree as far as the
  former are plain, and a timestamp is plain.
\<close>

lemma whitespace_split_at:
  "IsAsciiWhitespace sp \<Longrightarrow>
   whitespace_split cur (xs @ sp # ys) = whitespace_split cur xs @ whitespace_split [] ys"
  by (induction xs arbitrary: cur) simp_all

lemma whitespace_split_plain:
  "\<not> list_ex IsAsciiWhitespace t \<Longrightarrow> whitespace_split cur (t @ ys) = whitespace_split (rev t @ cur) ys"
  by (induction t arbitrary: cur) simp_all

lemma whitespace_split_blank:
  "list_all IsAsciiWhitespace xs \<Longrightarrow> whitespace_split [] (xs @ ys) = whitespace_split [] ys"
  by (induction xs) simp_all

lemma whitespace_split_rev:
  "\<not> list_ex IsAsciiWhitespace cur \<Longrightarrow> whitespace_split cur input = whitespace_split [] (rev cur @ input)"
  using whitespace_split_plain [of "rev cur" "[]" input] by (simp add: list_ex_iff)

lemma space_is_whitespace: "IsAsciiWhitespace (CHR '' '')"
  by (simp add: IsAsciiWhitespace_def kWhitespaceASCII_def)

lemma whitespace_tokens_pieces:
  "concat (map whitespace_tokens (split_pieces '' '' cur input)) = whitespace_tokens (rev cur @ input)"
proof (induction input arbitrary: cur)
  case Nil
  then show ?case
    by simp
next
  case (Cons c cs)
  show ?case
  proof (cases "c = CHR '' ''")
    case True
    with Cons.IH [of "[]"] show ?thesis
      using whitespace_split_at [OF space_is_whitespace, of "[]" "rev cur" cs]
      by (simp add: whitespace_tokens_def)
  next
    case False
    with Cons.IH [of "c # cur"] show ?thesis
      by simp
  qed
qed

lemma trim_decompose:
  "\<exists>a b. piece = a @ TrimWhitespaceASCII piece TRIM_ALL @ b \<and>
     list_all IsAsciiWhitespace a \<and> list_all IsAsciiWhitespace b"
proof -
  let ?a = "takeWhile IsAsciiWhitespace piece"
  let ?m = "dropWhile IsAsciiWhitespace piece"
  let ?b = "rev (takeWhile IsAsciiWhitespace (rev ?m))"
  have "rev ?m = takeWhile IsAsciiWhitespace (rev ?m) @ dropWhile IsAsciiWhitespace (rev ?m)"
    by simp
  then have "?m = rev (dropWhile IsAsciiWhitespace (rev ?m)) @ ?b"
    by (metis rev_append rev_rev_ident)
  then have "piece = ?a @ TrimWhitespaceASCII piece TRIM_ALL @ ?b"
    by (simp add: TrimWhitespaceASCII_def)
  moreover have "list_all IsAsciiWhitespace ?a" "list_all IsAsciiWhitespace ?b"
    by (auto simp: list_all_iff dest: set_takeWhileD)
  ultimately show ?thesis
    by blast
qed

lemma whitespace_tokens_blank:
  "list_all IsAsciiWhitespace xs \<Longrightarrow> whitespace_tokens xs = []"
  using whitespace_split_blank [of xs "[]"] by (simp add: whitespace_tokens_def)

lemma whitespace_tokens_piece:
  assumes "TrimWhitespaceASCII piece TRIM_ALL = t"
  shows "t = [] \<longrightarrow> whitespace_tokens piece = []"
    and "t \<noteq> [] \<and> no_whitespace t \<longrightarrow> whitespace_tokens piece = [t]"
proof -
  from trim_decompose [of piece] assms obtain a b where p: "piece = a @ t @ b"
    and a: "list_all IsAsciiWhitespace a" and b: "list_all IsAsciiWhitespace b"
    by blast
  show "t = [] \<longrightarrow> whitespace_tokens piece = []"
    using a b by (simp add: p whitespace_tokens_blank)
  show "t \<noteq> [] \<and> no_whitespace t \<longrightarrow> whitespace_tokens piece = [t]"
  proof
    assume t: "t \<noteq> [] \<and> no_whitespace t"
    have "whitespace_tokens piece = whitespace_split [] (t @ b)"
      using whitespace_split_blank [OF a, of "t @ b"] by (simp add: p whitespace_tokens_def)
    also have "\<dots> = whitespace_split (rev t) b"
      using t whitespace_split_plain [of t "[]" b] by (simp add: no_whitespace_def)
    also have "\<dots> = [t]"
    proof (cases b)
      case Nil
      with t show ?thesis
        by simp
    next
      case (Cons x xs)
      with b have "IsAsciiWhitespace x" "list_all IsAsciiWhitespace xs"
        by simp_all
      with t Cons whitespace_split_blank [of xs "[]"] show ?thesis
        by simp
    qed
    finally show "whitespace_tokens piece = [t]" .
  qed
qed

lemma tokens_agree:
  assumes "\<forall>i<k. no_whitespace (filter (\<lambda>t. t \<noteq> [])
      (map (\<lambda>piece. TrimWhitespaceASCII piece TRIM_ALL) pieces) ! i)"
    and "k \<le> length (filter (\<lambda>t. t \<noteq> []) (map (\<lambda>piece. TrimWhitespaceASCII piece TRIM_ALL) pieces))"
  shows "take k (concat (map whitespace_tokens pieces)) =
     take k (filter (\<lambda>t. t \<noteq> []) (map (\<lambda>piece. TrimWhitespaceASCII piece TRIM_ALL) pieces))"
  using assms
proof (induction pieces arbitrary: k)
  case Nil
  then show ?case
    by simp
next
  case (Cons piece pieces)
  let ?t = "TrimWhitespaceASCII piece TRIM_ALL"
  show ?case
  proof (cases "?t = []")
    case True
    with Cons.prems Cons.IH [of k] whitespace_tokens_piece(1) [of piece ?t] show ?thesis
      by simp
  next
    case False
    show ?thesis
    proof (cases k)
      case 0
      then show ?thesis
        by simp
    next
      case (Suc k')
      with Cons.prems(1) False have nw: "no_whitespace ?t"
        by auto
      from Suc Cons.prems False have "\<forall>i<k'. no_whitespace (filter (\<lambda>t. t \<noteq> [])
          (map (\<lambda>piece. TrimWhitespaceASCII piece TRIM_ALL) pieces) ! i)"
        and "k' \<le> length (filter (\<lambda>t. t \<noteq> [])
          (map (\<lambda>piece. TrimWhitespaceASCII piece TRIM_ALL) pieces))"
        by auto
      from Cons.IH [OF this] False nw Suc whitespace_tokens_piece(2) [of piece ?t] show ?thesis
        by simp
    qed
  qed
qed

lemma time_and_style_whitespace_tokens:
  assumes "k \<le> length (time_and_style_of line)"
    and "\<forall>i<k. no_whitespace (time_and_style_of line ! i)"
  shows "take k (whitespace_tokens line) = take k (time_and_style_of line)"
proof (cases "line = []")
  case True
  then show ?thesis
    by (simp add: time_and_style_of_def SplitString_def whitespace_tokens_def)
next
  case False
  then have c: "time_and_style_of line = filter (\<lambda>t. t \<noteq> [])
      (map (\<lambda>piece. TrimWhitespaceASCII piece TRIM_ALL) (split_pieces '' '' [] line))"
    by (simp add: time_and_style_of_def SplitString_def)
  from tokens_agree [of k "split_pieces '' '' [] line"] assms
  show ?thesis
    using whitespace_tokens_pieces [of "[]" line] by (simp add: c)
qed

lemma timestamp_char_plain: "timestamp_char c \<Longrightarrow> \<not> IsAsciiWhitespace c"
  by (auto simp: timestamp_char_def is_digit_def IsAsciiWhitespace_def kWhitespaceASCII_def)

lemma parse_digits_chars: "parse_digits ds = Some n \<Longrightarrow> list_all timestamp_char ds"
  by (auto simp: parse_digits_def timestamp_char_def list_all_iff split: if_splits)

lemma parse_hours_chars:
  assumes "parse_hours hp = Some h"
  shows "list_all timestamp_char hp"
proof (cases "hp = []")
  case True
  then show ?thesis
    by simp
next
  case False
  with assms have "last hp = CHR '':''" and "list_all timestamp_char (butlast hp)"
    by (auto simp: parse_hours_def dest: parse_digits_chars split: if_splits)
  moreover from False have "hp = butlast hp @ [last hp]"
    by simp
  ultimately show ?thesis
    by (metis list.pred_inject(1) list.pred_inject(2) list_all_append timestamp_char_def)
qed

lemma timestamp_tail_chars:
  assumes lt: "length t = 9" and sep: "t ! 2 = CHR '':''" "t ! 5 = CHR ''.''"
    and parts: "parse_digits (take 2 t) = Some m"
      "parse_digits (take 2 (drop 3 t)) = Some s" "parse_digits (drop 6 t) = Some f"
  shows "list_all timestamp_char t"
proof -
  have "timestamp_char (t ! i)" if "i < 9" for i
  proof -
    from that consider "i < 2" | "i = 2" | "3 \<le> i \<and> i < 5" | "i = 5" | "6 \<le> i \<and> i < 9"
      by linarith
    then show ?thesis
    proof cases
      case 1
      from parse_digits_chars [OF parts(1)] lt have "\<forall>n<2. timestamp_char (t ! n)"
        by (simp add: list_all_length)
      from this [rule_format, of i] 1 show ?thesis
        by simp
    next
      case 2
      with sep show ?thesis
        by (simp add: timestamp_char_def)
    next
      case 3
      from parse_digits_chars [OF parts(2)] lt have "\<forall>n<2. timestamp_char (t ! (3 + n))"
        by (simp add: list_all_length)
      from this [rule_format, of "i - 3"] 3 show ?thesis
        by auto
    next
      case 4
      with sep show ?thesis
        by (simp add: timestamp_char_def)
    next
      case 5
      from parse_digits_chars [OF parts(3)] lt have "\<forall>n<3. timestamp_char (t ! (6 + n))"
        by (simp add: list_all_length)
      from this [rule_format, of "i - 6"] 5 show ?thesis
        by auto
    qed
  qed
  with lt show ?thesis
    by (simp add: list_all_length)
qed

lemma WebVttTimestampToMs_chars:
  assumes "WebVttTimestampToMs source = Some ms"
  shows "no_whitespace source"
proof -
  define hp where "hp = take (length source - 9) source"
  define t where "t = drop (length source - 9) source"
  from assms have len: "9 \<le> length source"
    by (auto simp: WebVttTimestampToMs_def split: if_splits)
  then have lt: "length t = 9"
    by (simp add: t_def)
  from assms len obtain h m s f where sep: "t ! 2 = CHR '':''" "t ! 5 = CHR ''.''"
    and parts: "parse_hours hp = Some h" "parse_digits (take 2 t) = Some m"
      "parse_digits (take 2 (drop 3 t)) = Some s" "parse_digits (drop 6 t) = Some f"
    unfolding WebVttTimestampToMs_def Let_def hp_def [symmetric] t_def [symmetric]
    by (auto split: if_splits option.splits)
  from timestamp_tail_chars [OF lt sep parts(2-4)] parse_hours_chars [OF parts(1)]
  have "list_all timestamp_char (hp @ t)"
    by simp
  then have "list_all timestamp_char source"
    by (simp add: hp_def t_def)
  then show ?thesis
    by (auto simp: no_whitespace_def list_all_iff list_ex_iff dest: timestamp_char_plain)
qed

lemma arrow_plain: "no_whitespace ''-->''"
  by (simp add: no_whitespace_def IsAsciiWhitespace_def kWhitespaceASCII_def)

lemma timing_ok_whitespace_tokens:
  assumes "timing_ok line"
  shows "take 3 (whitespace_tokens line) = take 3 (time_and_style_of line)"
proof -
  let ?c = "time_and_style_of line"
  from assms have len: "3 \<le> length ?c" and a: "?c ! 1 = ''-->''"
    and t: "WebVttTimestampToMs (?c ! 0) \<noteq> None" "WebVttTimestampToMs (?c ! 2) \<noteq> None"
    by (simp_all add: timing_ok_def tokens_in_order_def)
  have "no_whitespace (?c ! i)" if "i < 3" for i
  proof -
    from that consider "i = 0" | "i = 1" | "i = 2"
      by linarith
    then show ?thesis
      using a t arrow_plain by cases (auto dest: WebVttTimestampToMs_chars)
  qed
  with len show ?thesis
    by (intro time_and_style_whitespace_tokens) simp_all
qed

text \<open>
  When every token is free of whitespace, the tokens of \<open>SplitString\<close> are the tokens
  between whitespace; the first three tokens of a timing line in order are.
\<close>

lemma tokens_agree_all:
  assumes "\<forall>t\<in>set (filter (\<lambda>t. t \<noteq> []) (map (\<lambda>piece. TrimWhitespaceASCII piece TRIM_ALL) pieces)).
      no_whitespace t"
  shows "concat (map whitespace_tokens pieces) =
     filter (\<lambda>t. t \<noteq> []) (map (\<lambda>piece. TrimWhitespaceASCII piece TRIM_ALL) pieces)"
  using assms
proof (induction pieces)
  case Nil
  then show ?case
    by simp
next
  case (Cons piece pieces)
  let ?t = "TrimWhitespaceASCII piece TRIM_ALL"
  show ?case
  proof (cases "?t = []")
    case True
    with Cons whitespace_tokens_piece(1) [of piece ?t] show ?thesis
      by simp
  next
    case False
    with Cons whitespace_tokens_piece(2) [of piece ?t] show ?thesis
      by simp
  qed
qed

lemma whitespace_tokens_all:
  assumes "\<forall>t\<in>set (time_and_style_of line). no_whitespace t"
  shows "whitespace_tokens line = time_and_style_of line"
proof (cases "line = []")
  case True
  then show ?thesis
    by (simp add: time_and_style_of_def SplitString_def whitespace_tokens_def)
next
  case False
  then have c: "time_and_style_of line = filter (\<lambda>t. t \<noteq> [])
      (map (\<lambda>piece. TrimWhitespaceASCII piece TRIM_ALL) (split_pieces '' '' [] line))"
    by (simp add: time_and_style_of_def SplitString_def)
  from tokens_agree_all [of "split_pieces '' '' [] line"] assms
  show ?thesis
    using whitespace_tokens_pieces [of "[]" line] by (simp add: c)
qed

lemma timing_ok_plain:
  assumes "timing_ok line" and "i < 3"
  shows "no_whitespace (time_and_style_of line ! i)"
proof -
  let ?c = "time_and_style_of line"
  from assms(1) have a: "?c ! 1 = ''-->''"
    and t: "WebVttTimestampToMs (?c ! 0) \<noteq> None" "WebVttTimestampToMs (?c ! 2) \<noteq> None"
    by (simp_all add: timing_ok_def tokens_in_order_def)
  from assms(2) consider "i = 0" | "i = 1" | "i = 2"
    by linarith
  then show ?thesis
    using a t arrow_plain by cases (auto dest: WebVttTimestampToMs_chars)
qed

lemma timing_ok_settings:
  assumes "timing_ok line" and "\<forall>t\<in>set (drop 3 (time_and_style_of line)). no_whitespace t"
  shows "whitespace_tokens line = time_and_style_of line"
proof (rule whitespace_tokens_all, rule ballI)
  fix t
  assume "t \<in> set (time_and_style_of line)"
  then obtain i where i: "i < length (time_and_style_of line)" and t: "t = time_and_style_of line ! i"
    by (auto simp: in_set_conv_nth)
  show "no_whitespace t"
  proof (cases "i < 3")
    case True
    with assms(1) t show ?thesis
      by (simp add: timing_ok_plain)
  next
    case False
    with i have "time_and_style_of line ! i = drop 3 (time_and_style_of line) ! (i - 3)"
      and "i - 3 < length (drop 3 (time_and_style_of line))"
      by simp_all
    with assms(2) t show ?thesis
      by (metis nth_mem)
  qed
qed

text \<open>
  The loop of \<open>Parse\<close> returns false exactly at the first block on which \<open>ParseBlock\<close>
  returns false, and a call on an initialized parser begins with the next block of the
  reader.
\<close>

lemma ParseLoop_failure:
  "ParseLoop p = Inr (False, p') \<longrightarrow>
     (\<exists>blocks bad q. reads (reader p) (blocks @ [bad]) (reader p') \<and>
        run_blocks blocks (p\<lparr>reader := reader p'\<rparr>) = Inr (True, q) \<and>
        ParseBlock bad q = Inr (False, p'))"
proof -
  let ?Q = "\<lambda>(p :: WebVttParser) (res :: result). res = Inr (False, p') \<longrightarrow>
     (\<exists>blocks bad q. reads (reader p) (blocks @ [bad]) (reader p') \<and>
        run_blocks blocks (p\<lparr>reader := reader p'\<rparr>) = Inr (True, q) \<and>
        ParseBlock bad q = Inr (False, p'))"
  have "?Q p (ParseLoop p)"
  proof (rule ParseLoop_cases [where Q = ?Q])
    fix p :: WebVttParser
    show "?Q p (Inr (True, p))"
      by simp
  next
    fix p :: WebVttParser and e :: error
    show "?Q p (Inl e)"
      by simp
  next
    fix p :: WebVttParser and block r p1
    assume n: "Next (reader p) = Some (block, r)"
      and b: "ParseBlock block (p\<lparr>reader := r\<rparr>) = Inr (False, p1)"
    show "?Q p (Inr (False, p1))"
    proof
      assume "Inr (False, p1) = (Inr (False, p') :: result)"
      then have eq: "p1 = p'"
        by simp
      with b have r: "reader p' = r"
        by (auto dest: ParseBlock_reader)
      from n r have "reads (reader p) ([] @ [block]) (reader p')"
        by simp
      moreover have "run_blocks [] (p\<lparr>reader := reader p'\<rparr>) = Inr (True, p\<lparr>reader := reader p'\<rparr>)"
        by simp
      moreover from b eq r have "ParseBlock block (p\<lparr>reader := reader p'\<rparr>) = Inr (False, p')"
        by simp
      ultimately show "\<exists>blocks bad q. reads (reader p) (blocks @ [bad]) (reader p') \<and>
        run_blocks blocks (p\<lparr>reader := reader p'\<rparr>) = Inr (True, q) \<and>
        ParseBlock bad q = Inr (False, p')"
        by blast
    qed
  next
    fix p :: WebVttParser and block r p1
    assume n: "Next (reader p) = Some (block, r)"
      and b: "ParseBlock block (p\<lparr>reader := r\<rparr>) = Inr (True, p1)" and ih: "?Q p1 (ParseLoop p1)"
    show "?Q p (ParseLoop p1)"
    proof
      assume "ParseLoop p1 = Inr (False, p')"
      with ih obtain blocks bad q where rd: "reads (reader p1) (blocks @ [bad]) (reader p')"
        and run: "run_blocks blocks (p1\<lparr>reader := reader p'\<rparr>) = Inr (True, q)"
        and bad: "ParseBlock bad q = Inr (False, p')"
        by blast
      from b have r: "reader p1 = r"
        by (auto dest: ParseBlock_reader)
      from b have "ParseBlock block (p\<lparr>reader := reader p'\<rparr>) = Inr (True, p1\<lparr>reader := reader p'\<rparr>)"
        using ParseBlock_with_reader [where block = block and p = p and r = r]
          ParseBlock_with_reader [where block = block and p = p and r = "reader p'"]
        by (auto simp: with_reader_def split: sum.splits)
      with run have "run_blocks (block # blocks) (p\<lparr>reader := reader p'\<rparr>) = Inr (True, q)"
        by simp
      moreover from n r rd have "reads (reader p) ((block # blocks) @ [bad]) (reader p')"
        by simp
      ultimately show "\<exists>blocks bad q. reads (reader p) (blocks @ [bad]) (reader p') \<and>
        run_blocks blocks (p\<lparr>reader := reader p'\<rparr>) = Inr (True, q) \<and>
        ParseBlock bad q = Inr (False, p')"
        using bad by blast
    qed
  qed
  then show ?thesis .
qed

lemma Parse_resumes:
  assumes "initialized p" and "Next (reader p) = Some (block, r)"
  shows "Parse p = (case ParseBlock block (p\<lparr>reader := r\<rparr>) of
                      Inl e \<Rightarrow> Inl e
                    | Inr (ok, p1) \<Rightarrow> if ok then Parse p1 else Inr (False, p1))"
proof (cases "ParseBlock block (p\<lparr>reader := r\<rparr>)")
  case (Inl e)
  with assms show ?thesis
    by (simp add: Parse_def) (subst ParseLoop.simps, simp)
next
  case (Inr a)
  obtain ok p1 where a: "a = (ok, p1)"
    by (cases a)
  from Inr a assms(1) have i: "initialized p1"
    by (auto dest: ParseBlock_frame)
  show ?thesis
  proof (cases ok)
    case True
    with Inr a assms i ParseLoop_continues [of p block r p1] show ?thesis
      by (simp add: Parse_def)
  next
    case False
    with Inr a assms ParseLoop_stops [of p block r p1] show ?thesis
      by (simp add: Parse_def)
  qed
qed

lemma ParseLoop_fails_at:
  assumes "reads (reader p) (blocks @ [bad]) r'"
    and "run_blocks blocks (p\<lparr>reader := r'\<rparr>) = Inr (True, q)"
    and "ParseBlock bad q = Inr (False, p')"
  shows "ParseLoop p = Inr (False, p')"
  using assms
proof (induction blocks arbitrary: p)
  case Nil
  from Nil.prems(1) have "Next (reader p) = Some (bad, r')"
    by (auto split: option.splits)
  with Nil.prems(2,3) show ?case
    by (simp add: ParseLoop_stops [of p bad r' p'])
next
  case (Cons block blocks)
  from Cons.prems(1) obtain r1 where n: "Next (reader p) = Some (block, r1)"
    and rd: "reads r1 (blocks @ [bad]) r'"
    by (auto split: option.splits)
  from Cons.prems(2) obtain p1 where b: "ParseBlock block (p\<lparr>reader := r'\<rparr>) = Inr (True, p1)"
    and run: "run_blocks blocks p1 = Inr (True, q)"
    by (auto split: sum.splits if_splits)
  from b have r: "reader p1 = r'"
    by (auto dest: ParseBlock_reader)
  from b have b1: "ParseBlock block (p\<lparr>reader := r1\<rparr>) = Inr (True, p1\<lparr>reader := r1\<rparr>)"
    using ParseBlock_with_reader [where block = block and p = p and r = r1]
      ParseBlock_with_reader [where block = block and p = p and r = r']
    by (auto simp: with_reader_def split: sum.splits)
  from r have "p1\<lparr>reader := r'\<rparr> = p1"
    by (cases p1) simp
  with run have "run_blocks blocks (p1\<lparr>reader := r1\<rparr>\<lparr>reader := r'\<rparr>) = Inr (True, q)"
    by simp
  from Cons.IH [of "p1\<lparr>reader := r1\<rparr>", OF _ this Cons.prems(3)] rd
  have "ParseLoop (p1\<lparr>reader := r1\<rparr>) = Inr (False, p')"
    by simp
  with n b1 show ?case
    by (simp add: ParseLoop_continues [of p block r1 "p1\<lparr>reader := r1\<rparr>"])
qed

section \<open>The claims\<close>

subsection \<open>C1: the order of the classification\<close>

text \<open>
  Claim C1. For every non-empty block (and a parser whose callbacks are bound),
  \<open>ParseBlock\<close> follows the classification in its order, the first rule that matches
  deciding: a comment leaves the state as it is, a style or region block goes to the
  configuration, a cue with or without identifier is the state \<open>ParseCue\<close> leaves with
  \<open>saw_cue\<close> set; and \<open>ParseBlock\<close> returns false exactly when no rule matches.
\<close>

theorem ParseBlock_classification:
  assumes "block \<noteq> []" and "init_cb p = BoundInitCB" and "new_text_sample_cb p = Some run"
  shows "(\<exists>p'. ParseBlock block p = Inr (classify block p \<noteq> Unclassifiable, p')) \<and>
    (classify block p = Comment \<longrightarrow> ParseBlock block p = Inr (True, p)) \<and>
    (classify block p = Style \<or> classify block p = Region \<longrightarrow>
       ParseBlock block p = Inr (True, config_added block p)) \<and>
    (classify block p = CueWithId \<longrightarrow>
       (\<exists>p1. ParseCue (block ! 0) (tl block) p = Inr (True, p1) \<and>
             ParseBlock block p = Inr (True, p1\<lparr>saw_cue := True\<rparr>))) \<and>
    (classify block p = CueWithoutId \<longrightarrow>
       (\<exists>p1. ParseCue [] block p = Inr (True, p1) \<and>
             ParseBlock block p = Inr (True, p1\<lparr>saw_cue := True\<rparr>)))"
proof -
  from assms(1) obtain line0 rest where block: "block = line0 # rest"
    by (cases block) auto
  consider (comment) "IsLikelyNote line0"
    | (style) "\<not> IsLikelyNote line0" "IsLikelyStyle line0"
    | (region) "\<not> IsLikelyNote line0" "\<not> IsLikelyStyle line0" "IsLikelyRegion line0"
    | (with_id) "\<not> IsLikelyNote line0" "\<not> IsLikelyStyle line0" "\<not> IsLikelyRegion line0"
        "\<not> IsLikelyCueTiming line0" "rest \<noteq> []" "IsLikelyCueTiming (hd rest)"
    | (no_id) "\<not> IsLikelyNote line0" "\<not> IsLikelyStyle line0" "\<not> IsLikelyRegion line0"
        "IsLikelyCueTiming line0"
    | (none) "\<not> IsLikelyNote line0" "\<not> IsLikelyStyle line0" "\<not> IsLikelyRegion line0"
        "\<not> IsLikelyCueTiming line0" "rest = [] \<or> \<not> IsLikelyCueTiming (hd rest)"
    by blast
  then show ?thesis
  proof cases
    case comment
    then show ?thesis
      by (simp add: block classify_def ParseBlock_note)
  next
    case style
    then show ?thesis
      by (simp add: block classify_def ParseBlock_style_region)
  next
    case region
    then show ?thesis
      by (simp add: block classify_def ParseBlock_style_region)
  next
    case with_id
    from with_id(5) obtain line1 body where rest: "rest = line1 # body"
      by (cases rest) auto
    from ParseCue_bound [OF assms(2,3)] obtain ok p1
      where cue: "ParseCue line0 (line1 # body) p = Inr (ok, p1)"
      by blast
    have "ParseBlock block p = Inr (marked (ok, p1))"
      using with_id rest cue by (simp add: block ParseBlock_with_id)
    with with_id rest cue show ?thesis
      by (cases ok) (simp_all add: block classify_def valid_cue_def marked_def)
  next
    case no_id
    from ParseCue_bound [OF assms(2,3)] obtain ok p1
      where cue: "ParseCue [] (line0 # rest) p = Inr (ok, p1)"
      by blast
    have "ParseBlock block p = Inr (marked (ok, p1))"
      using no_id cue by (simp add: block ParseBlock_no_id)
    with no_id cue show ?thesis
      by (cases ok) (simp_all add: block classify_def valid_cue_def marked_def)
  next
    case none
    have "ParseBlock block p = Inr (False, p)"
      using none by (simp add: block ParseBlock_no_shape)
    moreover have "classify block p = Unclassifiable"
      using none by (cases rest) (simp_all add: block classify_def)
    ultimately show ?thesis
      by simp
  qed
qed

theorem ParseBlock_classification_witness:
  "classify [''NOTE --> x''] ready = Comment \<and>
   ParseBlock [''NOTE --> x''] ready = Inr (True, ready) \<and>
   classify [''STYLE  '', ''a --> b''] ready = Style \<and>
   ParseBlock [''STYLE  '', ''a --> b''] ready =
     Inr (True, config_added [''STYLE  '', ''a --> b''] ready) \<and>
   classify [''REGION'', ''id:scroll''] ready = Region \<and>
   ParseBlock [''REGION'', ''id:scroll''] ready =
     Inr (True, config_added [''REGION'', ''id:scroll''] ready) \<and>
   classify [''id'', ''00:01:00.000 --> 01:00:00.000'', ''subtitle''] ready = CueWithId \<and>
   (\<exists>p1. ParseCue ''id'' [''00:01:00.000 --> 01:00:00.000'', ''subtitle''] ready = Inr (True, p1) \<and>
      ParseBlock [''id'', ''00:01:00.000 --> 01:00:00.000'', ''subtitle''] ready =
        Inr (True, p1\<lparr>saw_cue := True\<rparr>)) \<and>
   classify [''00:01:00.000 --> 01:00:00.000''] ready = CueWithoutId \<and>
   (\<exists>p1. ParseCue [] [''00:01:00.000 --> 01:00:00.000''] ready = Inr (True, p1) \<and>
      ParseBlock [''00:01:00.000 --> 01:00:00.000''] ready = Inr (True, p1\<lparr>saw_cue := True\<rparr>)) \<and>
   classify [''hello''] ready = Unclassifiable \<and>
   (\<exists>p'. ParseBlock [''hello''] ready = Inr (False, p'))"
proof -
  have g3: "parsed_time (time_and_style_of ''00:01:00.000 --> 01:00:00.000'') = Some (60000, 3600000)"
    by (simp add: tokens_plain parsed_time_def ts_values)
  have g4: "(60000 :: 64 word) < 3600000"
    by simp
  have v1: "valid_cue ''id'' [''00:01:00.000 --> 01:00:00.000'', ''subtitle''] ready"
    using ParseCue_sample [OF g3 g4 ready_callbacks, of "''id''" "[''subtitle'']"]
    by (simp add: valid_cue_def accept_all_def)
  have v2: "valid_cue [] [''00:01:00.000 --> 01:00:00.000''] ready"
    using ParseCue_sample [OF g3 g4 ready_callbacks, of "[]" "[]"]
    by (simp add: valid_cue_def accept_all_def)
  have c: "classify [''NOTE --> x''] ready = Comment"
    "classify [''STYLE  '', ''a --> b''] ready = Style"
    "classify [''REGION'', ''id:scroll''] ready = Region"
    "classify [''id'', ''00:01:00.000 --> 01:00:00.000'', ''subtitle''] ready = CueWithId"
    "classify [''00:01:00.000 --> 01:00:00.000''] ready = CueWithoutId"
    "classify [''hello''] ready = Unclassifiable"
    using v1 v2 by (simp_all add: classify_def line_eval)
  note r = ready_callbacks
  from c
    ParseBlock_classification [of "[''NOTE --> x'']", OF _ r]
    ParseBlock_classification [of "[''STYLE  '', ''a --> b'']", OF _ r]
    ParseBlock_classification [of "[''REGION'', ''id:scroll'']", OF _ r]
    ParseBlock_classification [of "[''id'', ''00:01:00.000 --> 01:00:00.000'', ''subtitle'']", OF _ r]
    ParseBlock_classification [of "[''00:01:00.000 --> 01:00:00.000'']", OF _ r]
    ParseBlock_classification [of "[''hello'']", OF _ r]
  show ?thesis
    by simp
qed

subsection \<open>C2: the first block\<close>

text \<open>
  Claim C2. For a parser that is not initialized: when no complete block is available,
  \<open>Parse\<close> returns true and leaves the state as it is; when the first block is the header
  line, with or without the byte order mark, \<open>Parse\<close> sets \<open>initialized\<close> and goes on
  with the loop over the following blocks; for every other first block it returns false.
\<close>

theorem Parse_first_block:
  assumes "\<not> initialized p"
  shows "(Next (reader p) = None \<longrightarrow> Parse p = Inr (True, p)) \<and>
    (\<forall>block r. Next (reader p) = Some (block, r) \<and> is_header_block block \<longrightarrow>
       Parse p = ParseLoop (p\<lparr>reader := r, initialized := True\<rparr>) \<and>
       (\<forall>ok p'. Parse p = Inr (ok, p') \<longrightarrow> initialized p')) \<and>
    (\<forall>block r. Next (reader p) = Some (block, r) \<and> \<not> is_header_block block \<longrightarrow>
       Parse p = Inr (False, p\<lparr>reader := r\<rparr>))"
proof -
  have "initialized p'"
    if "Next (reader p) = Some (block, r)" "is_header_block block" "Parse p = Inr (ok, p')"
    for block r ok p'
    using Parse_header_ok [OF assms that(1,2)] that(3)
      ParseLoop_frame [of "p\<lparr>reader := r, initialized := True\<rparr>" ok p']
    by simp
  with assms show ?thesis
    using Parse_no_block [of p] Parse_header_ok [of p] Parse_header_bad [of p]
    by blast
qed

theorem Parse_first_block_witness:
  "\<not> initialized (awaiting (''WEBVTT'' @ [LF])) \<and>
   Next (reader (awaiting (''WEBVTT'' @ [LF]))) = None \<and>
   Parse (awaiting (''WEBVTT'' @ [LF])) = Inr (True, awaiting (''WEBVTT'' @ [LF])) \<and>
   Next (reader (awaiting (BOM @ ''WEBVTT'' @ [LF, LF]))) =
     Some ([BOM @ ''WEBVTT''], reader (awaiting [])) \<and>
   is_header_block [BOM @ ''WEBVTT''] \<and>
   Parse (awaiting (BOM @ ''WEBVTT'' @ [LF, LF])) = Inr (True, (awaiting [])\<lparr>initialized := True\<rparr>) \<and>
   Next (reader (awaiting (''WEBVTT'' @ [LF] @ ''WEBVTT'' @ [LF, LF]))) =
     Some ([''WEBVTT'', ''WEBVTT''], reader (awaiting [])) \<and>
   \<not> is_header_block [''WEBVTT'', ''WEBVTT''] \<and>
   Parse (awaiting (''WEBVTT'' @ [LF] @ ''WEBVTT'' @ [LF, LF])) = Inr (False, awaiting []) \<and>
   Next (reader (awaiting (''NOT WEBVTT'' @ [LF, LF]))) = Some ([''NOT WEBVTT''], reader (awaiting [])) \<and>
   \<not> is_header_block [''NOT WEBVTT''] \<and>
   Parse (awaiting (''NOT WEBVTT'' @ [LF, LF])) = Inr (False, awaiting [])"
proof -
  have i: "\<not> initialized (awaiting bytes)" for bytes
    by (simp add: awaiting_def ready_def WebVttParser_new_def)
  have r: "reader (awaiting bytes) = \<lparr>buffer = bytes, should_flush = False\<rparr>"
    "(awaiting bytes)\<lparr>reader := \<lparr>buffer = bytes', should_flush = False\<rparr>\<rparr> = awaiting bytes'"
    for bytes bytes'
    by (simp_all add: awaiting_def)
  have n: "Next (reader (awaiting (''WEBVTT'' @ [LF]))) = None"
    "Next (reader (awaiting (BOM @ ''WEBVTT'' @ [LF, LF]))) =
       Some ([BOM @ ''WEBVTT''], reader (awaiting []))"
    "Next (reader (awaiting (''WEBVTT'' @ [LF] @ ''WEBVTT'' @ [LF, LF]))) =
       Some ([''WEBVTT'', ''WEBVTT''], reader (awaiting []))"
    "Next (reader (awaiting (''NOT WEBVTT'' @ [LF, LF]))) = Some ([''NOT WEBVTT''], reader (awaiting []))"
    "Next (reader ((awaiting [])\<lparr>initialized := True\<rparr>)) = None"
    by (simp_all add: r reader_eval BOM_def)
  have h: "is_header_block [BOM @ ''WEBVTT'']" "\<not> is_header_block [''WEBVTT'', ''WEBVTT'']"
    "\<not> is_header_block [''NOT WEBVTT'']"
    by (simp_all add: is_header_block_def BOM_def)
  from Parse_first_block [OF i, of "''WEBVTT'' @ [LF]"] n(1)
  have a: "Parse (awaiting (''WEBVTT'' @ [LF])) = Inr (True, awaiting (''WEBVTT'' @ [LF]))"
    by simp
  from Parse_first_block [OF i, of "BOM @ ''WEBVTT'' @ [LF, LF]"] n(2) h(1)
  have "Parse (awaiting (BOM @ ''WEBVTT'' @ [LF, LF])) = ParseLoop ((awaiting [])\<lparr>initialized := True\<rparr>)"
    by (simp add: r)
  with n(5) have b: "Parse (awaiting (BOM @ ''WEBVTT'' @ [LF, LF])) =
      Inr (True, (awaiting [])\<lparr>initialized := True\<rparr>)"
    by (simp add: ParseLoop_done)
  from Parse_first_block [OF i, of "''WEBVTT'' @ [LF] @ ''WEBVTT'' @ [LF, LF]"] n(3) h(2)
  have c: "Parse (awaiting (''WEBVTT'' @ [LF] @ ''WEBVTT'' @ [LF, LF])) = Inr (False, awaiting [])"
    by (simp add: r)
  from Parse_first_block [OF i, of "''NOT WEBVTT'' @ [LF, LF]"] n(4) h(3)
  have d: "Parse (awaiting (''NOT WEBVTT'' @ [LF, LF])) = Inr (False, awaiting [])"
    by (simp add: r)
  from i n(1-4) h a b c d show ?thesis
    by simp
qed

subsection \<open>C3: the timing line\<close>

text \<open>
  Claim C3. The timing line is cut into non-empty tokens: \<open>ParseCue\<close> cuts at spaces and
  trims the whitespace around each piece, so that its tokens hold no space and neither begin
  nor end with whitespace. \<open>ParseCue\<close> returns true only if there are at least three
  tokens, the second one is the arrow and the first and the third one are timestamps, for
  its own tokens and for the tokens between whitespace alike; when one of these conditions
  fails, \<open>ParseCue\<close> returns false with the state unchanged, and so does \<open>ParseBlock\<close> on a
  candidate cue with this timing line.
\<close>

theorem ParseCue_timing_line:
  "(\<forall>t\<in>set (time_and_style_of timing).
      t \<noteq> [] \<and> CHR '' '' \<notin> set t \<and> \<not> IsAsciiWhitespace (hd t) \<and> \<not> IsAsciiWhitespace (last t)) \<and>
   (ParseCue id' (timing # body) p = Inr (True, p') \<longrightarrow>
      tokens_in_order (time_and_style_of timing) \<and> tokens_in_order (whitespace_tokens timing)) \<and>
   (\<not> tokens_in_order (time_and_style_of timing) \<or> \<not> tokens_in_order (whitespace_tokens timing) \<longrightarrow>
      ParseCue id' (timing # body) p = Inr (False, p)) \<and>
   (cue_candidate block \<and> cue_parts block = Some (id', timing, body) \<and>
      (\<not> tokens_in_order (time_and_style_of timing) \<or>
       \<not> tokens_in_order (whitespace_tokens timing)) \<longrightarrow>
      ParseBlock block p = Inr (False, p))"
proof -
  have both: "tokens_in_order (whitespace_tokens timing)" if "timing_ok timing"
  proof -
    from that have c: "tokens_in_order (time_and_style_of timing)"
      by (simp add: timing_ok_def)
    then have "length (take 3 (time_and_style_of timing)) = 3"
      by (simp add: tokens_in_order_def)
    with timing_ok_whitespace_tokens [OF that]
    have "length (take 3 (whitespace_tokens timing)) = 3"
      by simp
    then have len: "3 \<le> length (whitespace_tokens timing)"
      by simp
    have "whitespace_tokens timing ! i = time_and_style_of timing ! i" if "i < 3" for i
      using that timing_ok_whitespace_tokens [OF \<open>timing_ok timing\<close>]
      by (metis nth_take)
    from this [of 0] this [of 1] this [of 2] c len show ?thesis
      by (simp add: tokens_in_order_def)
  qed
  have none: "parsed_time (time_and_style_of timing) = None"
    if "\<not> tokens_in_order (time_and_style_of timing) \<or>
        \<not> tokens_in_order (whitespace_tokens timing)"
  proof -
    from that both have "\<not> timing_ok timing"
      by (auto simp: timing_ok_def)
    then show ?thesis
      using parsed_time_iff [of timing]
      by (cases "parsed_time (time_and_style_of timing)") auto
  qed
  have fatal: "ParseBlock block p = Inr (False, p)"
    if "cue_candidate block" "cue_parts block = Some (id', timing, body)"
      "\<not> tokens_in_order (time_and_style_of timing) \<or>
       \<not> tokens_in_order (whitespace_tokens timing)"
    using that none by (simp add: ParseBlock_cue ParseCue_no_time marked_def)
  have true: "tokens_in_order (time_and_style_of timing) \<and>
      tokens_in_order (whitespace_tokens timing)"
    if "ParseCue id' (timing # body) p = Inr (True, p')"
    using ParseCue_True_timing [OF that] both by (simp add: timing_ok_def)
  have shape: "\<forall>t\<in>set (time_and_style_of timing).
      t \<noteq> [] \<and> CHR '' '' \<notin> set t \<and> \<not> IsAsciiWhitespace (hd t) \<and> \<not> IsAsciiWhitespace (last t)"
    using time_and_style_tokens [of _ timing] by blast
  have false: "ParseCue id' (timing # body) p = Inr (False, p)"
    if "\<not> tokens_in_order (time_and_style_of timing) \<or>
        \<not> tokens_in_order (whitespace_tokens timing)"
    using none [OF that] by (simp add: ParseCue_no_time)
  show ?thesis
  proof (intro conjI impI)
    show "\<forall>t\<in>set (time_and_style_of timing).
      t \<noteq> [] \<and> CHR '' '' \<notin> set t \<and> \<not> IsAsciiWhitespace (hd t) \<and> \<not> IsAsciiWhitespace (last t)"
      by (rule shape)
  next
    assume "ParseCue id' (timing # body) p = Inr (True, p')"
    from true [OF this] show "tokens_in_order (time_and_style_of timing)" ..
  next
    assume "ParseCue id' (timing # body) p = Inr (True, p')"
    from true [OF this] show "tokens_in_order (whitespace_tokens timing)" ..
  next
    assume "\<not> tokens_in_order (time_and_style_of timing) \<or>
        \<not> tokens_in_order (whitespace_tokens timing)"
    then show "ParseCue id' (timing # body) p = Inr (False, p)"
      by (rule false)
  next
    assume "cue_candidate block \<and> cue_parts block = Some (id', timing, body) \<and>
      (\<not> tokens_in_order (time_and_style_of timing) \<or>
       \<not> tokens_in_order (whitespace_tokens timing))"
    then show "ParseBlock block p = Inr (False, p)"
      using fatal by blast
  qed
qed

theorem ParseCue_timing_line_witness:
  "set (time_and_style_of ''00:01:00.000 -->  01:00:00.000 size:50% '') =
     {''00:01:00.000'', ''-->'', ''01:00:00.000'', ''size:50%''} \<and>
   ParseCue [] [''00:01:00.000 --> 01:00:00.000''] ready =
     Inr (True, ready\<lparr>stream_info_dispatched := True,
        events := [InitCbRun [stream_info_of []],
                   NewTextSampleCbRun 0 (cue_sample [] 60000 3600000 [] [])]\<rparr>) \<and>
   tokens_in_order (time_and_style_of ''00:01:00.000 --> 01:00:00.000'') \<and>
   tokens_in_order (whitespace_tokens ''00:01:00.000 --> 01:00:00.000'') \<and>
   \<not> tokens_in_order (time_and_style_of ''00:01:00.000 -->01:00:00.000'') \<and>
   ParseCue [] [''00:01:00.000 -->01:00:00.000''] ready = Inr (False, ready) \<and>
   cue_candidate [''id'', ''00:01:00.000 -->01:00:00.000''] \<and>
   cue_parts [''id'', ''00:01:00.000 -->01:00:00.000''] =
     Some (''id'', ''00:01:00.000 -->01:00:00.000'', []) \<and>
   ParseBlock [''id'', ''00:01:00.000 -->01:00:00.000''] ready = Inr (False, ready)"
proof -
  have t: "time_and_style_of ''00:01:00.000 -->  01:00:00.000 size:50% '' =
      [''00:01:00.000'', ''-->'', ''01:00:00.000'', ''size:50%'']"
    by (simp add: token_eval)
  have g3: "parsed_time (time_and_style_of ''00:01:00.000 --> 01:00:00.000'') = Some (60000, 3600000)"
    by (simp add: tokens_plain parsed_time_def ts_values)
  have g4: "(60000 :: 64 word) < 3600000"
    by simp
  have ok: "ParseCue [] [''00:01:00.000 --> 01:00:00.000''] ready =
     Inr (True, ready\<lparr>stream_info_dispatched := True,
        events := [InitCbRun [stream_info_of []],
                   NewTextSampleCbRun 0 (cue_sample [] 60000 3600000 [] [])]\<rparr>)"
    using ParseCue_sample [OF g3 g4 ready_callbacks, of "[]" "[]"]
    by (simp add: announced_explicit ready_fields tokens_plain kStreamIndex_def accept_all_def)
  have bad: "\<not> tokens_in_order (time_and_style_of ''00:01:00.000 -->01:00:00.000'')"
    by (simp add: tokens_in_order_def token_eval)
  have c: "cue_candidate [''id'', ''00:01:00.000 -->01:00:00.000'']"
    by (simp add: cue_candidate_def line_eval)
  have p: "cue_parts [''id'', ''00:01:00.000 -->01:00:00.000''] =
     Some (''id'', ''00:01:00.000 -->01:00:00.000'', [])"
    by (simp add: cue_parts_def line_eval)
  note a = ParseCue_timing_line [of "''00:01:00.000 --> 01:00:00.000''" "[]" "[]" ready _ "[]"]
  note b = ParseCue_timing_line [of "''00:01:00.000 -->01:00:00.000''" "[]" "[]" ready ready "[]"]
  note d = ParseCue_timing_line [of "''00:01:00.000 -->01:00:00.000''" "''id''" "[]" ready ready
      "[''id'', ''00:01:00.000 -->01:00:00.000'']"]
  from a ok have "tokens_in_order (time_and_style_of ''00:01:00.000 --> 01:00:00.000'') \<and>
      tokens_in_order (whitespace_tokens ''00:01:00.000 --> 01:00:00.000'')"
    by blast
  moreover from b bad have "ParseCue [] [''00:01:00.000 -->01:00:00.000''] ready = Inr (False, ready)"
    by blast
  moreover from d bad c p have "ParseBlock [''id'', ''00:01:00.000 -->01:00:00.000''] ready = Inr (False, ready)"
    by blast
  ultimately show ?thesis
    using t ok bad c p by simp
qed

text \<open>
  The conditions are necessary. For the tokens between whitespace they are not sufficient:
  \<open>ParseCue\<close> cuts at spaces only, so a timing line whose parts are separated by tabs is a
  single token for it, and the block fails.
\<close>

lemma tab_separated_timing_line:
  "whitespace_tokens (''00:01:00.000'' @ [CHR 0x09] @ ''-->'' @ [CHR 0x09] @ ''01:00:00.000'') =
     [''00:01:00.000'', ''-->'', ''01:00:00.000''] \<and>
   tokens_in_order
     (whitespace_tokens (''00:01:00.000'' @ [CHR 0x09] @ ''-->'' @ [CHR 0x09] @ ''01:00:00.000'')) \<and>
   time_and_style_of (''00:01:00.000'' @ [CHR 0x09] @ ''-->'' @ [CHR 0x09] @ ''01:00:00.000'') =
     [''00:01:00.000'' @ [CHR 0x09] @ ''-->'' @ [CHR 0x09] @ ''01:00:00.000''] \<and>
   ParseBlock [''00:01:00.000'' @ [CHR 0x09] @ ''-->'' @ [CHR 0x09] @ ''01:00:00.000'', ''subtitle'']
     ready = Inr (False, ready)"
proof -
  have w: "whitespace_tokens (''00:01:00.000'' @ [CHR 0x09] @ ''-->'' @ [CHR 0x09] @ ''01:00:00.000'') =
     [''00:01:00.000'', ''-->'', ''01:00:00.000'']"
    by (simp add: whitespace_tokens_def IsAsciiWhitespace_def kWhitespaceASCII_def)
  have c: "time_and_style_of (''00:01:00.000'' @ [CHR 0x09] @ ''-->'' @ [CHR 0x09] @ ''01:00:00.000'') =
     [''00:01:00.000'' @ [CHR 0x09] @ ''-->'' @ [CHR 0x09] @ ''01:00:00.000'']"
    by (simp add: token_eval)
  have "ParseBlock [''00:01:00.000'' @ [CHR 0x09] @ ''-->'' @ [CHR 0x09] @ ''01:00:00.000'', ''subtitle'']
     ready = Inr (False, ready)"
    by (simp add: parse_eval)
  with w c show ?thesis
    by (simp add: tokens_in_order_def ts_values)
qed

subsection \<open>C4: cues that end before they start\<close>

text \<open>
  Claim C4. For a candidate cue whose timing line parses with an end time not after the
  start time, \<open>ParseBlock\<close> returns true, sets \<open>saw_cue\<close>, hands no sample to the
  sample callback, and dispatches the stream information if that had not happened yet, so
  that a consistent trace holds exactly one dispatch afterwards; a valid cue that follows
  is still handed to the sample callback.
\<close>

theorem zero_duration_cue_dropped:
  assumes "cue_candidate block" and "cue_parts block = Some (id', timing, body)"
    and "parsed_time (time_and_style_of timing) = Some (st, en)" and "en \<le> st"
    and "init_cb p = BoundInitCB"
  shows "let p' = p\<lparr>saw_cue := True, stream_info_dispatched := True,
                    events := events p @ (if stream_info_dispatched p then []
                       else [InitCbRun [stream_info_of (style_region_config p)]])\<rparr>
         in ParseBlock block p = Inr (True, p') \<and>
            samples_of (events p') = samples_of (events p) \<and>
            (dispatch_consistent p \<longrightarrow> length (dispatches (events p')) = 1) \<and>
            (\<forall>block2 id2 timing2 body2 st2 en2 run.
               cue_candidate block2 \<and> cue_parts block2 = Some (id2, timing2, body2) \<and>
               parsed_time (time_and_style_of timing2) = Some (st2, en2) \<and> st2 < en2 \<and>
               new_text_sample_cb p = Some run \<longrightarrow>
               (\<exists>ok p''. ParseBlock block2 p' = Inr (ok, p'') \<and>
                  events p'' = events p' @
                    [NewTextSampleCbRun kStreamIndex
                       (cue_sample id2 st2 en2 (drop 3 (time_and_style_of timing2)) body2)]))"
proof -
  define p' where "p' = p\<lparr>saw_cue := True, stream_info_dispatched := True,
                    events := events p @ (if stream_info_dispatched p then []
                       else [InitCbRun [stream_info_of (style_region_config p)]])\<rparr>"
  have 1: "ParseBlock block p = Inr (True, p')"
    using assms by (simp add: ParseBlock_cue ParseCue_dropped marked_def announced_explicit p'_def)
  have 2: "samples_of (events p') = samples_of (events p)"
    by (simp add: p'_def samples_of_def stream_info_of_def)
  have 3: "length (dispatches (events p')) = 1" if "dispatch_consistent p"
    using that by (simp add: p'_def dispatch_consistent_def dispatches_def split: if_splits)
  have 4: "\<exists>ok p''. ParseBlock block2 p' = Inr (ok, p'') \<and>
      events p'' = events p' @
        [NewTextSampleCbRun kStreamIndex
           (cue_sample id2 st2 en2 (drop 3 (time_and_style_of timing2)) body2)]"
    if "cue_candidate block2" "cue_parts block2 = Some (id2, timing2, body2)"
      "parsed_time (time_and_style_of timing2) = Some (st2, en2)" "st2 < en2"
      "new_text_sample_cb p = Some run"
    for block2 id2 timing2 body2 st2 en2 run
  proof -
    have cb: "init_cb p' = BoundInitCB" "new_text_sample_cb p' = Some run"
      and d: "announced p' = p'"
      using assms(5) that(5) by (simp_all add: p'_def announced_def)
    from ParseCue_sample [OF that(3,4) cb, of id2 body2] that(1,2) show ?thesis
      by (auto simp: ParseBlock_cue d marked_def)
  qed
  from 1 2 3 4 show ?thesis
    unfolding p'_def [symmetric] Let_def by blast
qed

theorem zero_duration_cue_dropped_witness:
  "cue_candidate [''00:01:00.000 --> 00:01:00.000'', ''This subtitle would never show''] \<and>
   cue_parts [''00:01:00.000 --> 00:01:00.000'', ''This subtitle would never show''] =
     Some ([], ''00:01:00.000 --> 00:01:00.000'', [''This subtitle would never show'']) \<and>
   parsed_time (time_and_style_of ''00:01:00.000 --> 00:01:00.000'') = Some (60000, 60000) \<and>
   (60000 :: 64 word) \<le> 60000 \<and> init_cb ready = BoundInitCB \<and> dispatch_consistent ready \<and>
   ParseBlock [''00:01:00.000 --> 00:01:00.000'', ''This subtitle would never show''] ready =
     Inr (True, ready\<lparr>saw_cue := True, stream_info_dispatched := True,
                      events := [InitCbRun [stream_info_of []]]\<rparr>) \<and>
   samples_of [InitCbRun [stream_info_of []]] = [] \<and>
   length (dispatches [InitCbRun [stream_info_of []]]) = 1 \<and>
   (\<exists>ok p''. ParseBlock [''00:01:00.000 --> 01:00:00.000'', ''subtitle'']
        (ready\<lparr>saw_cue := True, stream_info_dispatched := True,
               events := [InitCbRun [stream_info_of []]]\<rparr>) = Inr (ok, p'') \<and>
      events p'' = [InitCbRun [stream_info_of []],
                    NewTextSampleCbRun 0 (cue_sample [] 60000 3600000 [] [''subtitle''])])"
proof -
  have h1: "cue_candidate [''00:01:00.000 --> 00:01:00.000'', ''This subtitle would never show'']"
    by (simp add: cue_candidate_def line_eval)
  have h2: "cue_parts [''00:01:00.000 --> 00:01:00.000'', ''This subtitle would never show''] =
     Some ([], ''00:01:00.000 --> 00:01:00.000'', [''This subtitle would never show''])"
    by (simp add: cue_parts_def line_eval)
  have h3: "parsed_time (time_and_style_of ''00:01:00.000 --> 00:01:00.000'') = Some (60000, 60000)"
    by (simp add: tokens_plain parsed_time_def ts_values)
  have h4: "(60000 :: 64 word) \<le> 60000"
    by simp
  have h6: "dispatch_consistent ready"
    by (simp add: dispatch_consistent_def dispatches_def ready_fields)
  have g1: "cue_candidate [''00:01:00.000 --> 01:00:00.000'', ''subtitle'']"
    by (simp add: cue_candidate_def line_eval)
  have g2: "cue_parts [''00:01:00.000 --> 01:00:00.000'', ''subtitle''] =
     Some ([], ''00:01:00.000 --> 01:00:00.000'', [''subtitle''])"
    by (simp add: cue_parts_def line_eval)
  have g3: "parsed_time (time_and_style_of ''00:01:00.000 --> 01:00:00.000'') = Some (60000, 3600000)"
    by (simp add: tokens_plain parsed_time_def ts_values)
  have g4: "(60000 :: 64 word) < 3600000"
    by simp
  note main = zero_duration_cue_dropped [OF h1 h2 h3 h4 ready_callbacks(1), unfolded Let_def ready_fields, simplified]
  from main have sub: "\<exists>ok p''. ParseBlock [''00:01:00.000 --> 01:00:00.000'', ''subtitle'']
        (ready\<lparr>saw_cue := True, stream_info_dispatched := True,
               events := [InitCbRun [stream_info_of []]]\<rparr>) = Inr (ok, p'') \<and>
      events p'' = [InitCbRun [stream_info_of []],
                    NewTextSampleCbRun kStreamIndex
                      (cue_sample [] 60000 3600000
                         (drop 3 (time_and_style_of ''00:01:00.000 --> 01:00:00.000'')) [''subtitle''])]"
    using g1 g2 g3 g4 ready_callbacks(2) by blast
  from main h1 h2 h3 h4 h6 sub show ?thesis
    by (simp add: ready_callbacks tokens_plain kStreamIndex_def samples_of_def)
qed

subsection \<open>C5: the configuration\<close>

text \<open>
  Claim C5. Style and region blocks that come before any cue extend the configuration in
  their order, each block with its lines joined by single newlines and a blank line between
  it and what was there; once a cue has been seen they leave the state as it is. Every run
  of the loop of \<open>Parse\<close> is such a run over the blocks it took. Over every call of
  \<open>Parse\<close> and \<open>Flush\<close> the stream information is dispatched at most once; it is never
  dispatched again nor changed afterwards, it carries the configuration of the moment of
  the dispatch, and the configuration does not change once a cue has been seen.
\<close>

theorem style_region_config_frozen:
  "((\<forall>block\<in>set blocks. style_or_region block) \<and> \<not> saw_cue p \<longrightarrow>
      run_blocks blocks p =
        Inr (True, p\<lparr>style_region_config := joined_blocks (style_region_config p) blocks\<rparr>)) \<and>
   ((\<forall>block\<in>set blocks. style_or_region block) \<and> saw_cue p \<longrightarrow>
      run_blocks blocks p = Inr (True, p)) \<and>
   (ParseLoop p = Inr (ok, p') \<longrightarrow>
      (\<exists>taken. run_blocks taken (p\<lparr>reader := reader p'\<rparr>) = Inr (ok, p'))) \<and>
   (res \<in> {Parse p, Parse_buf buf p, Flush p} \<and> res = Inr (ok, p') \<longrightarrow>
      (dispatch_consistent p \<longrightarrow> dispatch_consistent p' \<and> length (dispatches (events p')) \<le> 1) \<and>
      (stream_info_dispatched p \<longrightarrow>
         stream_info_dispatched p' \<and> dispatches (events p') = dispatches (events p)) \<and>
      (saw_cue p \<longrightarrow> saw_cue p' \<and> style_region_config p' = style_region_config p)) \<and>
   (ParseBlock block p = Inr (ok, p') \<and> \<not> stream_info_dispatched p \<and> stream_info_dispatched p' \<longrightarrow>
      dispatches (events p') = dispatches (events p) @ [[stream_info_of (style_region_config p)]]) \<and>
   dispatch_consistent WebVttParser_new"
proof -
  have calls: "kept p p'" if "res \<in> {Parse p, Parse_buf buf p, Flush p}" "res = Inr (ok, p')"
  proof -
    from that consider "Parse p = Inr (ok, p')"
      | "Parse (p\<lparr>reader := PushData buf (reader p)\<rparr>) = Inr (ok, p')"
      | "Parse (p\<lparr>reader := Flush_reader (reader p)\<rparr>) = Inr (ok, p')"
      by (auto simp: Parse_buf_def Flush_def)
    then show ?thesis
      by cases (auto dest: Parse_kept simp: kept_reader)
  qed
  have once: "length (dispatches (events q)) \<le> 1" if "dispatch_consistent q" for q
    using that by (simp add: dispatch_consistent_def split: if_splits)
  have new: "dispatch_consistent WebVttParser_new"
    by (simp add: dispatch_consistent_def WebVttParser_new_def dispatches_def)
  from calls once new show ?thesis
    using run_blocks_config [of blocks p] run_blocks_dropped [of blocks p]
      ParseLoop_run_blocks [of p ok p'] ParseBlock_trace(1) [of block p ok p']
    unfolding kept_def by auto
qed

theorem style_region_config_frozen_witness:
  "style_or_region style_block \<and> style_or_region region_block \<and> \<not> saw_cue ready \<and>
   run_blocks [style_block, region_block] ready = Inr (True, ready\<lparr>style_region_config := blob\<rparr>) \<and>
   saw_cue after_styles \<and>
   run_blocks [style_block, region_block] after_styles = Inr (True, after_styles) \<and>
   Parse_buf doc_styles ready = Inr (True, after_styles) \<and>
   dispatch_consistent ready \<and> dispatch_consistent after_styles \<and>
   dispatches (events after_styles) = [[stream_info_of blob]] \<and>
   style_region_config after_styles = blob \<and>
   Flush after_styles = Inr (True, after_styles\<lparr>reader := \<lparr>buffer = [], should_flush = True\<rparr>\<rparr>) \<and>
   ParseBlock [''00:01:00.000 --> 01:00:00.000'', ''subtitle''] (ready\<lparr>style_region_config := blob\<rparr>) =
     Inr (True, ready\<lparr>saw_cue := True, stream_info_dispatched := True, style_region_config := blob,
       events := [InitCbRun [stream_info_of blob],
                  NewTextSampleCbRun 0 (cue_sample [] 60000 3600000 [] [''subtitle''])]\<rparr>)"
proof -
  have sr: "style_or_region style_block" "style_or_region region_block"
    by (simp_all add: style_or_region_def style_block_def region_block_def line_eval)
  have j: "joined_blocks [] [style_block, region_block] = blob"
    by (simp add: joined_blocks_def style_block_def region_block_def blob_def)
  have f: "saw_cue after_styles" "stream_info_dispatched after_styles"
    "style_region_config after_styles = blob"
    "dispatches (events after_styles) = [[stream_info_of blob]]"
    by (simp_all add: after_styles_def dispatches_def)
  have fl: "Flush after_styles =
      Inr (True, after_styles\<lparr>reader := \<lparr>buffer = [], should_flush = True\<rparr>\<rparr>)"
    apply (simp add: parse_eval after_styles_def ready_def)
    apply (subst ParseLoop.simps, simp add: parse_eval)
    done
  have cue: "ParseBlock [''00:01:00.000 --> 01:00:00.000'', ''subtitle'']
      (ready\<lparr>style_region_config := blob\<rparr>) =
     Inr (True, ready\<lparr>saw_cue := True, stream_info_dispatched := True, style_region_config := blob,
       events := [InitCbRun [stream_info_of blob],
                  NewTextSampleCbRun 0 (cue_sample [] 60000 3600000 [] [''subtitle''])]\<rparr>)"
    by (simp add: parse_eval ready_def accept_all_def stream_info_of_def cue_sample_def)
  note a = style_region_config_frozen [of "[style_block, region_block]" ready True after_styles
      "Parse_buf doc_styles ready" doc_styles "[''00:01:00.000 --> 01:00:00.000'', ''subtitle'']"]
  note b = style_region_config_frozen [of "[style_block, region_block]" after_styles True
      "after_styles\<lparr>reader := \<lparr>buffer = [], should_flush = True\<rparr>\<rparr>"
      "Flush after_styles" "[]" "[]"]
  from a sr have 1: "run_blocks [style_block, region_block] ready =
      Inr (True, ready\<lparr>style_region_config := blob\<rparr>)"
    by (simp add: ready_fields j)
  from b sr f(1) have 2: "run_blocks [style_block, region_block] after_styles = Inr (True, after_styles)"
    by simp
  from a have 3: "dispatch_consistent after_styles"
    by (simp add: Parse_buf_doc_styles dispatch_consistent_def ready_fields dispatches_def)
  have 4: "dispatch_consistent ready"
    by (simp add: dispatch_consistent_def ready_fields dispatches_def)
  from sr 1 2 3 4 f fl cue show ?thesis
    by (simp add: Parse_buf_doc_styles ready_fields)
qed

subsection \<open>C6: the sample of a valid cue\<close>

text \<open>
  Claim C6 takes the settings of the sample from the tokens of the timing line, which the
  specification cuts at whitespace. \<open>ParseCue\<close> cuts the timing line at spaces only, so a
  tab inside a piece stays in its token. Here the timing line ends in \<open>a\<close>, a tab and
  \<open>b\<close>: the sample carries the one setting made of these three bytes, while the tokens
  between whitespace from index 3 on, joined by single spaces, are \<open>a b\<close>.
\<close>

theorem settings_keep_tabs_counterexample:
  "cue_candidate [''00:01:00.000 --> 01:00:00.000 a'' @ [CHR 0x09] @ ''b'', ''subtitle''] \<and>
   ParseBlock [''00:01:00.000 --> 01:00:00.000 a'' @ [CHR 0x09] @ ''b'', ''subtitle''] ready =
     Inr (True, ready\<lparr>saw_cue := True, stream_info_dispatched := True,
        events := [InitCbRun [stream_info_of []],
          NewTextSampleCbRun 0
            (cue_sample [] 60000 3600000 [''a'' @ [CHR 0x09] @ ''b''] [''subtitle''])]\<rparr>) \<and>
   settings (cue_sample [] 60000 3600000 [''a'' @ [CHR 0x09] @ ''b''] [''subtitle'']) =
     ''a'' @ [CHR 0x09] @ ''b'' \<and>
   whitespace_tokens (''00:01:00.000 --> 01:00:00.000 a'' @ [CHR 0x09] @ ''b'') =
     [''00:01:00.000'', ''-->'', ''01:00:00.000'', ''a'', ''b''] \<and>
   JoinString (drop 3 (whitespace_tokens (''00:01:00.000 --> 01:00:00.000 a'' @ [CHR 0x09] @ ''b'')))
     '' '' = ''a b'' \<and>
   settings (cue_sample [] 60000 3600000 [''a'' @ [CHR 0x09] @ ''b''] [''subtitle'']) \<noteq> ''a b''"
proof -
  have c: "cue_candidate [''00:01:00.000 --> 01:00:00.000 a'' @ [CHR 0x09] @ ''b'', ''subtitle'']"
    by (simp add: cue_candidate_def line_eval)
  have b: "ParseBlock [''00:01:00.000 --> 01:00:00.000 a'' @ [CHR 0x09] @ ''b'', ''subtitle''] ready =
     Inr (True, ready\<lparr>saw_cue := True, stream_info_dispatched := True,
        events := [InitCbRun [stream_info_of []],
          NewTextSampleCbRun 0
            (cue_sample [] 60000 3600000 [''a'' @ [CHR 0x09] @ ''b''] [''subtitle''])]\<rparr>)"
    by (simp add: parse_eval ready_def accept_all_def stream_info_of_def cue_sample_def)
  have w: "whitespace_tokens (''00:01:00.000 --> 01:00:00.000 a'' @ [CHR 0x09] @ ''b'') =
     [''00:01:00.000'', ''-->'', ''01:00:00.000'', ''a'', ''b'']"
    by (simp add: whitespace_tokens_def IsAsciiWhitespace_def kWhitespaceASCII_def)
  have s: "settings (cue_sample [] 60000 3600000 [''a'' @ [CHR 0x09] @ ''b''] [''subtitle'']) =
     ''a'' @ [CHR 0x09] @ ''b''"
    by (simp add: settings_def cue_sample_def)
  from c b w s show ?thesis
    by simp
qed

text \<open>
  Claim C6, amended. The tokens of the timing line are its pieces between spaces, each
  with the whitespace around it trimmed, the empty ones dropped. For a candidate cue whose
  tokens are in order, with the first token a timestamp of value \<open>st\<close>, the third one a
  timestamp of value \<open>en\<close> and \<open>st < en\<close>, the sample handed to the sample callback, with
  stream index 0, has the identifier line as its identifier (the empty string when there
  is none), the times \<open>st\<close> and \<open>en\<close>, which are also the values of the first and the
  third token between whitespace, the tokens from index 3 on joined by single spaces as its
  settings, which are the tokens between whitespace from index 3 on when none of them
  holds whitespace, and the lines behind the timing line joined by single newlines as its
  payload; \<open>ParseBlock\<close> returns what the callback returns, and when the callback rejects,
  the call of \<open>Parse\<close> that took the block returns false.
\<close>

theorem valid_cue_sample:
  assumes "cue_candidate block" and "cue_parts block = Some (id', timing, body)"
    and "tokens_in_order (time_and_style_of timing)"
    and "WebVttTimestampToMs (time_and_style_of timing ! 0) = Some st"
    and "WebVttTimestampToMs (time_and_style_of timing ! 2) = Some en"
    and "st < en"
    and "init_cb p = BoundInitCB" and "new_text_sample_cb p = Some run"
  shows "let tokens = time_and_style_of timing;
             sample = cue_sample id' st en (drop 3 tokens) body;
             trace = events p @ (if stream_info_dispatched p then []
                       else [InitCbRun [stream_info_of (style_region_config p)]]);
             accepted = run trace kStreamIndex sample;
             p' = p\<lparr>saw_cue := saw_cue p \<or> accepted, stream_info_dispatched := True,
                    events := trace @ [NewTextSampleCbRun kStreamIndex sample]\<rparr>
         in ParseBlock block p = Inr (accepted, p') \<and>
            kStreamIndex = 0 \<and>
            sample_id sample = (if IsLikelyCueTiming (block ! 0) then [] else block ! 0) \<and>
            take 3 (whitespace_tokens timing) = take 3 tokens \<and>
            WebVttTimestampToMs (whitespace_tokens timing ! 0) = Some (start_time sample) \<and>
            WebVttTimestampToMs (whitespace_tokens timing ! 2) = Some (end_time sample) \<and>
            start_time sample = st \<and> end_time sample = en \<and>
            settings sample = JoinString (drop 3 tokens) '' '' \<and>
            ((\<forall>t\<in>set (drop 3 tokens). no_whitespace t) \<longrightarrow>
               settings sample = JoinString (drop 3 (whitespace_tokens timing)) '' '') \<and>
            payload sample = JoinString body [LF] \<and>
            body = drop (if IsLikelyCueTiming (block ! 0) then 1 else 2) block \<and>
            (\<forall>q. initialized q \<and> Next (reader q) = Some (block, reader p) \<and>
                 q\<lparr>reader := reader p\<rparr> = p \<and> \<not> accepted \<longrightarrow>
                 Parse q = Inr (False, p'))"
proof -
  define tokens where "tokens = time_and_style_of timing"
  define sample where "sample = cue_sample id' st en (drop 3 tokens) body"
  define trace where "trace = events p @ (if stream_info_dispatched p then []
                       else [InitCbRun [stream_info_of (style_region_config p)]])"
  define accepted where "accepted = run trace kStreamIndex sample"
  define p' where "p' = p\<lparr>saw_cue := saw_cue p \<or> accepted, stream_info_dispatched := True,
                    events := trace @ [NewTextSampleCbRun kStreamIndex sample]\<rparr>"
  have time: "parsed_time (time_and_style_of timing) = Some (st, en)"
    using assms(3-5) by (simp add: parsed_time_def tokens_in_order_def)
  have ok: "timing_ok timing"
    using assms(3) by (simp add: timing_ok_def)
  have ev: "events (announced p) = trace"
    by (simp add: announced_explicit trace_def)
  have 1: "ParseBlock block p = Inr (accepted, p')"
    using assms(1,2) ParseCue_sample [OF time assms(6-8), of id' body]
    by (simp add: ParseBlock_cue ev tokens_def [symmetric] sample_def [symmetric]
        accepted_def [symmetric])
       (simp add: marked_def p'_def announced_explicit trace_def)
  have 2: "sample_id sample = (if IsLikelyCueTiming (block ! 0) then [] else block ! 0)"
    "body = drop (if IsLikelyCueTiming (block ! 0) then 1 else 2) block"
    using assms(2) by (auto simp: sample_def cue_sample_def cue_parts_def split: if_splits)
  have 3: "start_time sample = st" "end_time sample = en"
    "settings sample = JoinString (drop 3 tokens) '' ''"
    "payload sample = JoinString body [LF]"
    by (simp_all add: sample_def cue_sample_def settings_def payload_def)
  have 4: "Parse q = Inr (False, p')"
    if "initialized q" "Next (reader q) = Some (block, reader p)" "q\<lparr>reader := reader p\<rparr> = p"
      "\<not> accepted" for q
    using that 1 by (simp add: Parse_def ParseLoop_stops [of q block "reader p" p'])
  have 5: "take 3 (whitespace_tokens timing) = take 3 tokens"
    using timing_ok_whitespace_tokens [OF ok] by (simp add: tokens_def)
  have nth: "whitespace_tokens timing ! i = tokens ! i" if "i < 3" for i
    using that 5 by (metis nth_take)
  have 6: "WebVttTimestampToMs (whitespace_tokens timing ! 0) = Some (start_time sample)"
    "WebVttTimestampToMs (whitespace_tokens timing ! 2) = Some (end_time sample)"
    using nth [of 0] nth [of 2] assms(4,5) 3(1,2) by (simp_all add: tokens_def)
  have 7: "settings sample = JoinString (drop 3 (whitespace_tokens timing)) '' ''"
    if "\<forall>t\<in>set (drop 3 tokens). no_whitespace t"
    using timing_ok_settings [OF ok] that 3(3) by (simp add: tokens_def)
  from 1 2 3 4 5 6 7 show ?thesis
    unfolding Let_def tokens_def [symmetric] sample_def [symmetric] trace_def [symmetric]
      accepted_def [symmetric] p'_def [symmetric]
    by (simp add: kStreamIndex_def)
qed

theorem valid_cue_sample_witness:
  "cue_candidate cue_block \<and>
   cue_parts cue_block =
     Some (''id'', ''00:01:00.000 --> 01:00:00.000 size:50% line:0'', [''subtitle'', ''more'']) \<and>
   tokens_in_order (time_and_style_of ''00:01:00.000 --> 01:00:00.000 size:50% line:0'') \<and>
   WebVttTimestampToMs (time_and_style_of ''00:01:00.000 --> 01:00:00.000 size:50% line:0'' ! 0) =
     Some 60000 \<and>
   WebVttTimestampToMs (time_and_style_of ''00:01:00.000 --> 01:00:00.000 size:50% line:0'' ! 2) =
     Some 3600000 \<and>
   (60000 :: 64 word) < 3600000 \<and>
   ParseBlock cue_block (streaming [] accept_all) =
     Inr (True, (streaming [] accept_all)\<lparr>saw_cue := True, stream_info_dispatched := True,
        events := [InitCbRun [stream_info_of []],
          NewTextSampleCbRun 0
            (cue_sample ''id'' 60000 3600000 [''size:50%'', ''line:0''] [''subtitle'', ''more''])]\<rparr>) \<and>
   settings (cue_sample ''id'' 60000 3600000 [''size:50%'', ''line:0''] [''subtitle'', ''more'']) =
     ''size:50% line:0'' \<and>
   no_whitespace ''size:50%'' \<and> no_whitespace ''line:0'' \<and>
   JoinString (drop 3 (whitespace_tokens ''00:01:00.000 --> 01:00:00.000 size:50% line:0'')) '' '' =
     ''size:50% line:0'' \<and>
   payload (cue_sample ''id'' 60000 3600000 [''size:50%'', ''line:0''] [''subtitle'', ''more'']) =
     ''subtitle'' @ [LF] @ ''more'' \<and>
   Next (reader (streaming cue_bytes reject_all)) = Some (cue_block, reader (streaming [] reject_all)) \<and>
   Parse (streaming cue_bytes reject_all) =
     Inr (False, (streaming [] reject_all)\<lparr>saw_cue := False, stream_info_dispatched := True,
        events := [InitCbRun [stream_info_of []],
          NewTextSampleCbRun 0
            (cue_sample ''id'' 60000 3600000 [''size:50%'', ''line:0''] [''subtitle'', ''more''])]\<rparr>)"
proof -
  have h1: "cue_candidate cue_block"
    by (simp add: cue_block_def cue_candidate_def line_eval)
  have h2: "cue_parts cue_block =
     Some (''id'', ''00:01:00.000 --> 01:00:00.000 size:50% line:0'', [''subtitle'', ''more''])"
    by (simp add: cue_block_def cue_parts_def line_eval)
  have t: "time_and_style_of ''00:01:00.000 --> 01:00:00.000 size:50% line:0'' =
      [''00:01:00.000'', ''-->'', ''01:00:00.000'', ''size:50%'', ''line:0'']"
    by (simp add: token_eval)
  have h3: "tokens_in_order (time_and_style_of ''00:01:00.000 --> 01:00:00.000 size:50% line:0'')"
    by (simp add: t tokens_in_order_def ts_values)
  have h4: "WebVttTimestampToMs (time_and_style_of ''00:01:00.000 --> 01:00:00.000 size:50% line:0'' ! 0) =
     Some 60000"
    by (simp add: t ts_values)
  have h5: "WebVttTimestampToMs (time_and_style_of ''00:01:00.000 --> 01:00:00.000 size:50% line:0'' ! 2) =
     Some 3600000"
    by (simp add: t ts_values)
  have h6: "(60000 :: 64 word) < 3600000"
    by simp
  have plain: "no_whitespace ''size:50%''" "no_whitespace ''line:0''"
    by (simp_all add: no_whitespace_def IsAsciiWhitespace_def kWhitespaceASCII_def)
  have n: "Next (reader (streaming cue_bytes reject_all)) =
      Some (cue_block, reader (streaming [] reject_all))"
    by (simp add: streaming_fields cue_bytes_def cue_block_def reader_eval)
  have s: "settings (cue_sample ''id'' 60000 3600000 [''size:50%'', ''line:0''] [''subtitle'', ''more'']) =
     ''size:50% line:0''"
    "payload (cue_sample ''id'' 60000 3600000 [''size:50%'', ''line:0''] [''subtitle'', ''more'']) =
     ''subtitle'' @ [LF] @ ''more''"
    by (simp_all add: settings_def payload_def cue_sample_def)
  note acc = valid_cue_sample [OF h1 h2 h3 h4 h5 h6 streaming_fields(1,2), of "[]" accept_all,
      unfolded Let_def streaming_fields t, simplified]
  note rej = valid_cue_sample [OF h1 h2 h3 h4 h5 h6 streaming_fields(1,2), of "[]" reject_all,
      unfolded Let_def streaming_fields t, simplified]
  from acc plain s(1)
  have w: "JoinString (drop 3 (whitespace_tokens ''00:01:00.000 --> 01:00:00.000 size:50% line:0'')) '' '' =
     ''size:50% line:0''"
    by simp
  from rej have "\<forall>q. initialized q \<and>
       Next (reader q) = Some (cue_block, \<lparr>buffer = [], should_flush = False\<rparr>) \<and>
       q\<lparr>reader := \<lparr>buffer = [], should_flush = False\<rparr>\<rparr> = streaming [] reject_all \<longrightarrow>
       Parse q = Inr (False, (streaming [] reject_all)\<lparr>saw_cue := False,
        stream_info_dispatched := True,
        events := [InitCbRun [stream_info_of []],
          NewTextSampleCbRun 0
            (cue_sample ''id'' 60000 3600000 [''size:50%'', ''line:0''] [''subtitle'', ''more''])]\<rparr>)"
    by (simp add: reject_all_def kStreamIndex_def)
  from this [rule_format, of "streaming cue_bytes reject_all"] n
  have p: "Parse (streaming cue_bytes reject_all) =
     Inr (False, (streaming [] reject_all)\<lparr>saw_cue := False, stream_info_dispatched := True,
        events := [InitCbRun [stream_info_of []],
          NewTextSampleCbRun 0
            (cue_sample ''id'' 60000 3600000 [''size:50%'', ''line:0''] [''subtitle'', ''more''])]\<rparr>)"
    by (simp add: streaming_fields)
  from acc have b: "ParseBlock cue_block (streaming [] accept_all) =
     Inr (True, (streaming [] accept_all)\<lparr>saw_cue := True, stream_info_dispatched := True,
        events := [InitCbRun [stream_info_of []],
          NewTextSampleCbRun 0
            (cue_sample ''id'' 60000 3600000 [''size:50%'', ''line:0''] [''subtitle'', ''more''])]\<rparr>)"
    by (simp add: accept_all_def kStreamIndex_def)
  from h1 h2 h3 h4 h5 h6 b s plain w n p show ?thesis
    by (simp only: simp_thms)
qed

subsection \<open>C7: the chunks of a document\<close>

text \<open>
  Claim C7. For a parser whose reader has not been flushed, feeding a document in any
  chunks, down to single bytes, and feeding it in one piece give the same result and the
  same trace of callback runs.
\<close>

theorem chunking_independent:
  assumes "\<not> should_flush (reader p)"
  shows "outcome (feed chunks p) = outcome (feed [concat chunks] p)"
  using assms
proof (induction chunks arbitrary: p)
  case Nil
  then show ?case
    by (simp add: feed_nothing del: feed.simps)
next
  case (Cons chunk chunks)
  note u = Cons.prems
  have part: "Parse_buf chunk p = Parse (with_more chunk False p)"
    using u by (simp add: Parse_buf_more)
  show ?case
  proof (cases "Parse_buf chunk p")
    case (Inl e)
    with feed_whole_append [OF u, of chunk "concat chunks"] show ?thesis
      by simp
  next
    case (Inr a)
    obtain ok p1 where a: "a = (ok, p1)"
      by (cases a)
    show ?thesis
    proof (cases ok)
      case False
      with Inr a feed_whole_append [OF u, of chunk "concat chunks"] show ?thesis
        by (simp add: outcome_def)
    next
      case True
      from Inr a True part have "\<not> should_flush (reader p1)"
        using Parse_unflushed [of "with_more chunk False p" True p1] by (simp add: with_more_fields)
      from Cons.IH [OF this] Inr a True feed_whole_append [OF u, of chunk "concat chunks"]
      show ?thesis
        by simp
    qed
  qed
qed

theorem chunking_independent_witness:
  "\<not> should_flush (reader ready) \<and> concat doc_chunks = doc_flushed \<and>
   outcome (feed [doc_flushed] ready) =
     Inr (True, [InitCbRun [stream_info_of []],
                 NewTextSampleCbRun 0 (cue_sample [] 60000 3600000 [] [''subtitle''])]) \<and>
   outcome (feed doc_chunks ready) =
     Inr (True, [InitCbRun [stream_info_of []],
                 NewTextSampleCbRun 0 (cue_sample [] 60000 3600000 [] [''subtitle''])]) \<and>
   outcome (feed (map (\<lambda>byte. [byte]) doc_flushed) ready) =
     Inr (True, [InitCbRun [stream_info_of []],
                 NewTextSampleCbRun 0 (cue_sample [] 60000 3600000 [] [''subtitle''])])"
proof -
  have u: "\<not> should_flush (reader ready)"
    by (simp add: ready_def WebVttParser_new_def BlockReader_new_def)
  have c: "concat doc_chunks = doc_flushed"
    by (simp add: doc_chunks_def doc_flushed_def)
  have b: "concat (map (\<lambda>byte. [byte]) doc_flushed) = doc_flushed"
    by (rule concat_bytes)
  from chunking_independent [OF u, of doc_chunks]
    chunking_independent [OF u, of "map (\<lambda>byte. [byte]) doc_flushed"]
  show ?thesis
    by (simp only: c b u feed_doc_flushed simp_thms)
qed

subsection \<open>C8: after a failure\<close>

text \<open>
  Claim C8 says that after a call has returned failure every later call returns failure and
  processes no block. The parser keeps no record of a failure: here \<open>Parse\<close> fails on the
  block \<open>bad\<close>, and the following \<open>Flush\<close> returns true and hands the cue behind it to the
  sample callback.
\<close>

theorem failure_not_sticky_counterexample:
  "returned_false (Parse_buf doc_bad ready) \<and>
   succeeded (Flush (state_after (Parse_buf doc_bad ready))) \<and>
   samples_of (events (state_after (Flush (state_after (Parse_buf doc_bad ready))))) =
     [cue_sample [] 60000 3600000 [] [''subtitle'']]"
  by (simp add: Parse_buf_doc_bad Flush_after_bad returned_false_def succeeded_def state_after_def
      samples_of_def)

text \<open>
  Claim C8, amended. A call of \<open>Parse\<close> returns false exactly when it stops at a block that
  failed. Either the parser awaits the header and the first block is not the header: then
  nothing but the reader has changed. Or, behind the header when it was still awaited,
  \<open>ParseBlock\<close> returned true on every block before the failing one and false on the
  failing one: then the state is the one the failing block left. In both cases the reader
  stands right behind the failing block: no later block is taken in this call. Nothing in
  the state records the failure: a later call of \<open>Parse\<close> on the initialized parser takes
  the next block and goes on from there. \<open>Parse(buf)\<close> and \<open>Flush\<close> are \<open>Parse\<close> after
  the bytes have been pushed or the flush flag has been set.
\<close>

theorem Parse_failure_position:
  "(Parse p = Inr (False, p')) =
     ((\<exists>bad. \<not> initialized p \<and> reads (reader p) [bad] (reader p') \<and>
          \<not> is_header_block bad \<and> p' = p\<lparr>reader := reader p'\<rparr>) \<or>
      (\<exists>header blocks bad q.
          reads (reader p) (header @ blocks @ [bad]) (reader p') \<and>
          (if initialized p then header = []
           else length header = 1 \<and> is_header_block (hd header)) \<and>
          run_blocks blocks (p\<lparr>initialized := True, reader := reader p'\<rparr>) = Inr (True, q) \<and>
          ParseBlock bad q = Inr (False, p') \<and> initialized p')) \<and>
   (Parse p = Inr (False, p') \<longrightarrow>
      (\<forall>block r. initialized p' \<and> Next (reader p') = Some (block, r) \<longrightarrow>
         Parse p' = (case ParseBlock block (p'\<lparr>reader := r\<rparr>) of
                       Inl e \<Rightarrow> Inl e
                     | Inr (ok, p1) \<Rightarrow> if ok then Parse p1 else Inr (False, p1))))"
proof -
  let ?header = "\<exists>bad. \<not> initialized p \<and> reads (reader p) [bad] (reader p') \<and>
          \<not> is_header_block bad \<and> p' = p\<lparr>reader := reader p'\<rparr>"
  let ?loop = "\<exists>header blocks bad q.
          reads (reader p) (header @ blocks @ [bad]) (reader p') \<and>
          (if initialized p then header = []
           else length header = 1 \<and> is_header_block (hd header)) \<and>
          run_blocks blocks (p\<lparr>initialized := True, reader := reader p'\<rparr>) = Inr (True, q) \<and>
          ParseBlock bad q = Inr (False, p') \<and> initialized p'"
  have later: "\<forall>block r. initialized p' \<and> Next (reader p') = Some (block, r) \<longrightarrow>
            Parse p' = (case ParseBlock block (p'\<lparr>reader := r\<rparr>) of
                          Inl e \<Rightarrow> Inl e
                        | Inr (ok, p1) \<Rightarrow> if ok then Parse p1 else Inr (False, p1))"
    using Parse_resumes [of p'] by blast
  have loop: "\<exists>blocks bad q. reads (reader p0) (blocks @ [bad]) (reader p') \<and>
        run_blocks blocks (p0\<lparr>reader := reader p'\<rparr>) = Inr (True, q) \<and>
        ParseBlock bad q = Inr (False, p') \<and> initialized p'"
    if "ParseLoop p0 = Inr (False, p')" "initialized p0" for p0
    using that ParseLoop_failure [of p0 p'] ParseLoop_frame [of p0 False p'] by blast
  have position: "?header \<or> ?loop" if fails: "Parse p = Inr (False, p')"
  proof (cases "initialized p")
    case True
    then have same: "p\<lparr>initialized := True, reader := reader p'\<rparr> = p\<lparr>reader := reader p'\<rparr>"
      by (cases p) simp
    from True fails have "ParseLoop p = Inr (False, p')"
      by (simp add: Parse_def)
    from loop [OF this True] obtain blocks bad q
      where "reads (reader p) ([] @ blocks @ [bad]) (reader p')"
        and "run_blocks blocks (p\<lparr>initialized := True, reader := reader p'\<rparr>) = Inr (True, q)"
        and "ParseBlock bad q = Inr (False, p')" and "initialized p'"
      by (auto simp: same)
    with True show ?thesis
      by (intro disjI2 exI [of _ "[]"] exI [of _ blocks] exI [of _ bad] exI [of _ q]) simp
  next
    case False
    show ?thesis
    proof (cases "Next (reader p)")
      case None
      with False fails show ?thesis
        by (simp add: Parse_def)
    next
      case (Some a)
      obtain block r where a: "a = (block, r)"
        by (cases a)
      show ?thesis
      proof (cases "is_header_block block")
        case True
        with False Some a fails
        have "ParseLoop (p\<lparr>reader := r, initialized := True\<rparr>) = Inr (False, p')"
          by (simp add: Parse_header_ok)
        from loop [OF this] obtain blocks bad q
          where rd: "reads r (blocks @ [bad]) (reader p')"
            and run: "run_blocks blocks (p\<lparr>initialized := True, reader := reader p'\<rparr>) = Inr (True, q)"
            and bad: "ParseBlock bad q = Inr (False, p')" and i: "initialized p'"
          by auto
        from Some a rd have "reads (reader p) ([block] @ blocks @ [bad]) (reader p')"
          by simp
        with False True run bad i show ?thesis
          by (intro disjI2 exI [of _ "[block]"] exI [of _ blocks] exI [of _ bad] exI [of _ q]) simp
      next
        case hdr: False
        with False Some a fails have "p' = p\<lparr>reader := r\<rparr>"
          by (simp add: Parse_header_bad)
        with False Some a hdr show ?thesis
          by (intro disjI1 exI [of _ block]) simp
      qed
    qed
  qed
  have from_header: "Parse p = Inr (False, p')" if ?header
  proof -
    from that obtain bad where u: "\<not> initialized p" and rd: "reads (reader p) [bad] (reader p')"
      and hdr: "\<not> is_header_block bad" and eq: "p' = p\<lparr>reader := reader p'\<rparr>"
      by blast
    from rd have "Next (reader p) = Some (bad, reader p')"
      by (auto split: option.splits)
    from Parse_header_bad [OF u this hdr] eq show ?thesis
      by simp
  qed
  have from_loop: "Parse p = Inr (False, p')" if ?loop
  proof -
    from that obtain header blocks bad q
      where rd: "reads (reader p) (header @ blocks @ [bad]) (reader p')"
        and h: "if initialized p then header = []
           else length header = 1 \<and> is_header_block (hd header)"
        and run: "run_blocks blocks (p\<lparr>initialized := True, reader := reader p'\<rparr>) = Inr (True, q)"
        and bad: "ParseBlock bad q = Inr (False, p')"
      by blast
    show ?thesis
    proof (cases "initialized p")
      case True
      then have same: "p\<lparr>initialized := True, reader := reader p'\<rparr> = p\<lparr>reader := reader p'\<rparr>"
        by (cases p) simp
      from True h rd have "reads (reader p) (blocks @ [bad]) (reader p')"
        by simp
      from ParseLoop_fails_at [OF this _ bad] run same True show ?thesis
        by (simp add: Parse_def)
    next
      case False
      with h obtain first where header: "header = [first]" and ok: "is_header_block first"
        by (cases header) auto
      from rd header obtain r1 where n: "Next (reader p) = Some (first, r1)"
        and rd1: "reads r1 (blocks @ [bad]) (reader p')"
        by (auto split: option.splits)
      from rd1 have "reads (reader (p\<lparr>reader := r1, initialized := True\<rparr>)) (blocks @ [bad]) (reader p')"
        by simp
      from ParseLoop_fails_at [OF this _ bad] run
      have "ParseLoop (p\<lparr>reader := r1, initialized := True\<rparr>) = Inr (False, p')"
        by simp
      with False n ok show ?thesis
        by (simp add: Parse_header_ok)
    qed
  qed
  from position from_header from_loop have "(Parse p = Inr (False, p')) = (?header \<or> ?loop)"
    by blast
  with later show ?thesis
    by simp
qed

theorem Parse_failure_position_witness:
  "reads (reader (streaming (''NOTE a'' @ [LF, LF] @ ''bad'' @ [LF, LF] @ ''NOTE b'' @ [LF, LF]) accept_all))
     ([] @ [[''NOTE a'']] @ [[''bad'']]) (reader (streaming (''NOTE b'' @ [LF, LF]) accept_all)) \<and>
   run_blocks [[''NOTE a'']] (streaming (''NOTE b'' @ [LF, LF]) accept_all) =
     Inr (True, streaming (''NOTE b'' @ [LF, LF]) accept_all) \<and>
   ParseBlock [''bad''] (streaming (''NOTE b'' @ [LF, LF]) accept_all) =
     Inr (False, streaming (''NOTE b'' @ [LF, LF]) accept_all) \<and>
   Parse (streaming (''NOTE a'' @ [LF, LF] @ ''bad'' @ [LF, LF] @ ''NOTE b'' @ [LF, LF]) accept_all) =
     Inr (False, streaming (''NOTE b'' @ [LF, LF]) accept_all) \<and>
   initialized (streaming (''NOTE b'' @ [LF, LF]) accept_all) \<and>
   Next (reader (streaming (''NOTE b'' @ [LF, LF]) accept_all)) =
     Some ([''NOTE b''], reader (streaming [] accept_all)) \<and>
   Parse (streaming (''NOTE b'' @ [LF, LF]) accept_all) = Inr (True, streaming [] accept_all)"
proof -
  let ?p = "streaming (''NOTE a'' @ [LF, LF] @ ''bad'' @ [LF, LF] @ ''NOTE b'' @ [LF, LF]) accept_all"
  let ?p' = "streaming (''NOTE b'' @ [LF, LF]) accept_all"
  have rd: "reads (reader ?p) ([] @ [[''NOTE a'']] @ [[''bad'']]) (reader ?p')"
    by (simp add: streaming_fields reader_eval)
  have same: "?p\<lparr>initialized := True, reader := reader ?p'\<rparr> = ?p'"
    by (simp add: streaming_def)
  have run: "run_blocks [[''NOTE a'']] ?p' = Inr (True, ?p')"
    by (simp add: ParseBlock_def line_eval)
  have bad: "ParseBlock [''bad''] ?p' = Inr (False, ?p')"
    by (simp add: ParseBlock_def line_eval)
  have i: "initialized ?p'"
    by (simp add: streaming_fields)
  have n: "Next (reader ?p') = Some ([''NOTE b''], reader (streaming [] accept_all))"
    by (simp add: streaming_fields reader_eval)
  have last: "Parse (streaming [] accept_all) = Inr (True, streaming [] accept_all)"
    by (simp add: Parse_def streaming_fields ParseLoop_done reader_eval)
  have note_b: "ParseBlock [''NOTE b''] (streaming [] accept_all) = Inr (True, streaming [] accept_all)"
    by (simp add: ParseBlock_def line_eval)
  note t = Parse_failure_position [of ?p ?p']
  have h: "if initialized ?p then ([] :: string list list) = []
      else length ([] :: string list list) = 1 \<and> is_header_block (hd [])"
    by (simp add: streaming_fields)
  from run have run': "run_blocks [[''NOTE a'']] (?p\<lparr>initialized := True, reader := reader ?p'\<rparr>) =
      Inr (True, ?p')"
    by (simp only: same)
  from rd h run' bad i have "\<exists>header blocks bad q.
          reads (reader ?p) (header @ blocks @ [bad]) (reader ?p') \<and>
          (if initialized ?p then header = []
           else length header = 1 \<and> is_header_block (hd header)) \<and>
          run_blocks blocks (?p\<lparr>initialized := True, reader := reader ?p'\<rparr>) = Inr (True, q) \<and>
          ParseBlock bad q = Inr (False, ?p') \<and> initialized ?p'"
    by blast
  with t have fails: "Parse ?p = Inr (False, ?p')"
    by blast
  with t have "\<forall>block r. initialized ?p' \<and> Next (reader ?p') = Some (block, r) \<longrightarrow>
         Parse ?p' = (case ParseBlock block (?p'\<lparr>reader := r\<rparr>) of
                       Inl e \<Rightarrow> Inl e
                     | Inr (ok, p1) \<Rightarrow> if ok then Parse p1 else Inr (False, p1))"
    by blast
  from this [rule_format, of "[''NOTE b'']" "reader (streaming [] accept_all)"] i n
  have "Parse ?p' = Inr (True, streaming [] accept_all)"
    by (simp add: streaming_fields note_b last)
  with rd run bad fails i n show ?thesis
    by simp
qed

subsection \<open>C9: a decryption key source\<close>

text \<open>
  Claim C9 says that \<open>Init\<close> fails when it is given a decryption key source. \<open>Init\<close>
  returns nothing, and its only check is a \<open>DCHECK\<close>: without debug checks \<open>Init\<close> leaves the
  key source aside, installs the callbacks, and the parser handles the bytes it is given.
\<close>

theorem Init_key_source_counterexample:
  "Init False BoundInitCB (None :: unit option) (Some accept_all) (Some ()) WebVttParser_new =
     Inr ready \<and>
   succeeded (Parse_buf doc_one_cue ready) \<and>
   samples_of (events (state_after (Parse_buf doc_one_cue ready))) =
     [cue_sample [] 60000 3600000 [] [''subtitle'']]"
proof -
  have "Init False BoundInitCB (None :: unit option) (Some accept_all) (Some ()) WebVttParser_new =
     Inr ready"
    by (simp add: Init_def DCHECK_def ready_def)
  then show ?thesis
    by (simp add: Parse_buf_doc_one_cue succeeded_def state_after_def samples_of_def)
qed

text \<open>
  Claim C9, amended. Given a decryption key source, \<open>Init\<close> stops at a failed check when
  debug checks are on, before any byte is handled, and without debug checks it installs
  the callbacks as if no key source had been given.
\<close>

theorem Init_key_source:
  assumes "decryption_key_source \<noteq> None"
  shows "(\<exists>message. Init True icb mcb tcb decryption_key_source p = Inl (CheckFailed message)) \<and>
         Init False icb mcb tcb decryption_key_source p =
           Inr (p\<lparr>init_cb := icb, new_text_sample_cb := tcb\<rparr>)"
  using assms by (simp add: Init_def DCHECK_def)

theorem Init_key_source_witness:
  "Some () \<noteq> None \<and>
   Init True BoundInitCB (None :: unit option) (Some accept_all) (Some ()) WebVttParser_new =
     Inl (CheckFailed ''Encrypted WebVTT not supported'') \<and>
   Init False BoundInitCB (None :: unit option) (Some accept_all) (Some ()) WebVttParser_new = Inr ready"
  using Init_key_source [of "Some ()" BoundInitCB "None :: unit option" "Some accept_all" WebVttParser_new]
  by (simp add: Init_def DCHECK_def WebVttParser_new_def ready_def)

subsection \<open>C10: the first line of a block\<close>

text \<open>
  Claim C10. Every block the reader yields has at least one line, and no empty line; on a
  non-empty block \<open>ParseBlock\<close> never reads out of range, as it would on an empty one; and
  no call of \<open>Parse\<close>, with or without bytes, or of \<open>Flush\<close> ends in a read out of range.
\<close>

theorem blocks_in_range:
  "(\<forall>block r'. Next r = Some (block, r') \<longrightarrow> block \<noteq> [] \<and> [] \<notin> set block) \<and>
   (block \<noteq> [] \<longrightarrow> ParseBlock block p \<noteq> Inl OutOfRange) \<and>
   ParseBlock [] p = Inl OutOfRange \<and>
   Parse p \<noteq> Inl OutOfRange \<and> Parse_buf buf p \<noteq> Inl OutOfRange \<and> Flush p \<noteq> Inl OutOfRange"
  using Next_nonempty [of r] ParseBlock_in_range [of block p]
  by (simp add: Parse_in_range Parse_buf_def Flush_def ParseBlock_def)

theorem blocks_in_range_witness:
  "Next \<lparr>buffer = [LF, LF] @ ''a'' @ [CR, LF] @ ''b'' @ [LF, CR, LF] @ ''c'', should_flush = False\<rparr> =
     Some ([''a'', ''b''], \<lparr>buffer = ''c'', should_flush = False\<rparr>) \<and>
   [''a'', ''b''] \<noteq> [] \<and> [] \<notin> set [''a'', ''b''] \<and>
   ParseBlock [''a'', ''b''] ready \<noteq> Inl OutOfRange \<and>
   ParseBlock [] ready = Inl OutOfRange"
  using blocks_in_range [of "\<lparr>buffer = [LF, LF] @ ''a'' @ [CR, LF] @ ''b'' @ [LF, CR, LF] @ ''c'',
      should_flush = False\<rparr>" "[''a'', ''b'']" ready]
  by (simp add: reader_eval)

end
